theory Spec2Isabelle
  imports
    Main
    "HOL-Library.AList"
    "HOL-Library.Char_ord"
    "HOL-Library.List_Lexorder"
    "HOL-Library.Multiset"
begin

section \<open>The customer importer: counting customers per email domain\<close>

text \<open>
  A shallow embedding of \<^verbatim>\<open>interview.go\<close> (package \<^verbatim>\<open>customerimporter\<close>).
  Go strings are byte sequences: \<^typ>\<open>string\<close>, ordered byte-wise and lexicographically
  (the order Go's \<^verbatim>\<open><\<close> on strings and \<^verbatim>\<open>sort.Strings\<close> use).
  Go's \<^verbatim>\<open>int\<close> is \<^typ>\<open>int\<close>, without the wrap-around at the ends of its range
  (\<open>minInt\<close>, \<open>maxInt\<close>). The only arithmetic of the package is \<^verbatim>\<open>++\<close> on a domain
  counter, on the column index and on the line number. Inside \<^verbatim>\<open>Import\<close> each of them
  is bounded by the number of records or header fields read plus two
  (\<open>Import_counter_bound\<close> for the counters), far below \<open>maxInt\<close>, so the model and the
  code agree there. \<^verbatim>\<open>processLine\<close> on its own takes any map: a statement about the
  counter it writes holds of the code where the counter read is below \<open>maxInt\<close>, and
  says so.
\<close>

subsection \<open>The parts of the Go library the package calls\<close>

text \<open>
  Two library paths depend on tables and on a formatter the package does not contain:
  what \<^verbatim>\<open>strings.ToLower\<close> does to a string with a byte beyond ASCII
  (\<^verbatim>\<open>strings.Map(unicode.ToLower, s)\<close>), and what \<^verbatim>\<open>fmt\<close> makes, with no operand, of
  a format from a \<^verbatim>\<open>%\<close> on that is followed by something other than a letter (a flag, a
  width, a precision, an argument index, another \<^verbatim>\<open>%\<close>). They are parameters of the
  model; everything else is defined.
\<close>

record stdlib =
  unicodeLower :: "string \<Rightarrow> string"
  formatVerbs :: "string \<Rightarrow> string"

definition isASCII :: "string \<Rightarrow> bool" where
  "isASCII s = list_all (\<lambda>c. (of_char c :: nat) < 128) s"

definition lowerByte :: "char \<Rightarrow> char" where
  "lowerByte c =
     (if CHR ''A'' \<le> c \<and> c \<le> CHR ''Z'' then char_of ((of_char c :: nat) + 32) else c)"

text \<open>
  \<^verbatim>\<open>strings.ToLower\<close>: on a string of ASCII bytes, each of \<^verbatim>\<open>'A'..'Z'\<close> is moved by
  \<^verbatim>\<open>'a' - 'A'\<close>; any other string goes through the Unicode mapping.
\<close>

definition ToLower :: "stdlib \<Rightarrow> string \<Rightarrow> string" where
  "ToLower lib s = (if isASCII s then map lowerByte s else unicodeLower lib s)"

text \<open>
  \<^verbatim>\<open>strings.Split(s, sep)\<close> for a separator of one byte: the substrings between the
  occurrences of the separator, one more than there are occurrences.
\<close>

fun Split :: "string \<Rightarrow> char \<Rightarrow> string list" where
  "Split [] sep = [[]]"
| "Split (c # cs) sep =
     (if c = sep then [] # Split cs sep
      else (let parts = Split cs sep in (c # hd parts) # tl parts))"

text \<open>The verb \<^verbatim>\<open>%d\<close> of \<^verbatim>\<open>fmt\<close> on an \<^verbatim>\<open>int\<close>: decimal digits, with a sign when negative.\<close>

fun digits :: "nat \<Rightarrow> string" where
  "digits n =
     (if n < 10 then [char_of (48 + n)]
      else digits (n div 10) @ [char_of (48 + n mod 10)])"

declare digits.simps [simp del]

definition itoa :: "int \<Rightarrow> string" where
  "itoa i = (if i < 0 then CHR ''-'' # digits (nat (- i)) else digits (nat i))"

text \<open>
  \<^verbatim>\<open>fmt.Errorf(format)\<close> and \<^verbatim>\<open>log.Printf(format)\<close> with no operand. The text up to a
  \<^verbatim>\<open>%\<close> is copied. A \<^verbatim>\<open>%\<close> directly followed by a letter is a verb without flags:
  no operand is left for it, and \<^verbatim>\<open>fmt\<close> writes \<^verbatim>\<open>%!v(MISSING)\<close> for the verb \<open>v\<close>. A
  \<^verbatim>\<open>%\<close> that ends the format gives \<^verbatim>\<open>%!(NOVERB)\<close>.
\<close>

definition isLetter :: "char \<Rightarrow> bool" where
  "isLetter c =
     ((CHR ''a'' \<le> c \<and> c \<le> CHR ''z'') \<or> (CHR ''A'' \<le> c \<and> c \<le> CHR ''Z''))"

fun Sprintf0 :: "stdlib \<Rightarrow> string \<Rightarrow> string" where
  "Sprintf0 lib [] = []"
| "Sprintf0 lib [c] = (if c = CHR ''%'' then ''%!(NOVERB)'' else [c])"
| "Sprintf0 lib (c # verb # rest) =
     (if c \<noteq> CHR ''%'' then c # Sprintf0 lib (verb # rest)
      else if isLetter verb then ''%!'' @ [verb] @ ''(MISSING)'' @ Sprintf0 lib rest
      else formatVerbs lib (c # verb # rest))"

text \<open>
  Errors. \<^verbatim>\<open>io.EOF\<close> is a sentinel compared by identity; \<open>ErrFieldCount\<close> is the
  \<^verbatim>\<open>csv.ParseError\<close> that wraps \<^verbatim>\<open>csv.ErrFieldCount\<close>; \<open>ReadError\<close> is any other error
  of the reader, with its text; \<open>ErrorString\<close> is an error made by \<^verbatim>\<open>fmt.Errorf\<close>,
  with its text. The position of a \<^verbatim>\<open>csv.ParseError\<close> is not modelled: \<open>Error\<close> gives
  for \<open>ErrFieldCount\<close> the text of the wrapped error, to which \<^verbatim>\<open>encoding/csv\<close>
  prefixes the position (\<^verbatim>\<open>record on line 3: \<close> in the test). No statement below reads
  that text.
\<close>

datatype error = EOF | ErrFieldCount | ReadError string | ErrorString string

fun Error :: "error \<Rightarrow> string" where
  "Error EOF = ''EOF''"
| "Error ErrFieldCount = ''wrong number of fields''"
| "Error (ReadError s) = s"
| "Error (ErrorString s) = s"

text \<open>Run-time panics of Go: an index out of range (index, length), a nil receiver.\<close>

datatype panic = IndexOutOfRange int nat | NilPointerDereference

text \<open>
  \<^verbatim>\<open>csv.Reader\<close>, after the parsing of the text: \<open>pending\<close> is what the next calls of
  \<^verbatim>\<open>readRecord\<close> find, a record or an error, and the end of the list is the end of the
  input. \<^verbatim>\<open>Read\<close> checks the number of fields as \<^verbatim>\<open>FieldsPerRecord\<close> says: positive, every
  record has that many fields; zero, the first record read sets it; negative, no check.
  Every caller here stops reading at the first error.
\<close>

record Reader =
  FieldsPerRecord :: int
  pending :: "(error + string list) list"

definition NewReader :: "(error + string list) list \<Rightarrow> Reader" where
  "NewReader input = \<lparr>FieldsPerRecord = 0, pending = input\<rparr>"

definition Read :: "Reader \<Rightarrow> (string list \<times> error option) \<times> Reader" where
  "Read r =
     (case pending r of
        [] \<Rightarrow> (([], Some EOF), r)
      | Inl e # rest \<Rightarrow> (([], Some e), r\<lparr>pending := rest\<rparr>)
      | Inr dst # rest \<Rightarrow>
          (if 0 < FieldsPerRecord r then
             (if int (length dst) \<noteq> FieldsPerRecord r
              then ((dst, Some ErrFieldCount), r\<lparr>pending := rest\<rparr>)
              else ((dst, None), r\<lparr>pending := rest\<rparr>))
           else if FieldsPerRecord r = 0 then
             ((dst, None), r\<lparr>FieldsPerRecord := int (length dst), pending := rest\<rparr>)
           else ((dst, None), r\<lparr>pending := rest\<rparr>)))"

subsection \<open>The importer\<close>

record customerImporter =
  CsvFileName :: string
  EmailColumnName :: string

record EmailGroup =
  EmailDomain :: string
  Counter :: int

definition defaultCsvFileName :: string where
  "defaultCsvFileName = ''customers.csv''"

definition defaultEmailColumnName :: string where
  "defaultEmailColumnName = ''email''"

definition numExpectedEmailComponents :: nat where
  "numExpectedEmailComponents = 2"

definition emailDomainIndex :: nat where
  "emailDomainIndex = 1"

definition New :: customerImporter where
  "New = \<lparr>CsvFileName = defaultCsvFileName, EmailColumnName = defaultEmailColumnName\<rparr>"

definition SetCsvFileName :: "customerImporter \<Rightarrow> string \<Rightarrow> customerImporter" where
  "SetCsvFileName ci fileName = ci\<lparr>CsvFileName := fileName\<rparr>"

definition SetEmailColumnName :: "customerImporter \<Rightarrow> string \<Rightarrow> customerImporter" where
  "SetEmailColumnName ci columnName = ci\<lparr>EmailColumnName := columnName\<rparr>"

text \<open>
  The aggregation map \<^verbatim>\<open>map[string]int\<close> is an association list; the order of its
  entries stands for the order in which \<^verbatim>\<open>range\<close> happens to visit the map, which Go
  leaves open. A value of this type is a map that \<^verbatim>\<open>make\<close> returned, as the one
  \<^verbatim>\<open>Import\<close> passes to \<^verbatim>\<open>processLine\<close>: the nil map, on which a write panics, is not
  among them. A missing key reads as zero, and \<^verbatim>\<open>m[k]++\<close> writes the value read plus
  one; in Go the sum wraps from \<open>maxInt\<close> to \<open>minInt\<close>, here it does not, so \<open>mapIncr\<close>
  is \<^verbatim>\<open>m[k]++\<close> where the value read is below \<open>maxInt\<close>.
\<close>

type_synonym custGrp = "(string \<times> int) list"

definition mapGet :: "custGrp \<Rightarrow> string \<Rightarrow> int" where
  "mapGet m k = (case map_of m k of None \<Rightarrow> 0 | Some c \<Rightarrow> c)"

definition mapIncr :: "custGrp \<Rightarrow> string \<Rightarrow> custGrp" where
  "mapIncr m k = AList.update k (mapGet m k + 1) m"

text \<open>The ends of the range of \<^verbatim>\<open>int\<close>, of 64 bits (\<^verbatim>\<open>math.MaxInt64\<close>, \<^verbatim>\<open>math.MinInt64\<close>).\<close>

definition maxInt :: int where
  "maxInt = 2 ^ 63 - 1"

definition minInt :: int where
  "minInt = - (2 ^ 63)"

text \<open>The loop of \<^verbatim>\<open>parseHeader\<close> over the header, with its running index.\<close>

fun findColumn :: "string list \<Rightarrow> string \<Rightarrow> int \<Rightarrow> int option" where
  "findColumn [] name emailColIndex = None"
| "findColumn (colName # rest) name emailColIndex =
     (if colName = name then Some emailColIndex
      else findColumn rest name (emailColIndex + 1))"

definition missingColumnMsg :: "string \<Rightarrow> string" where
  "missingColumnMsg name =
     ''missing column name '' @ [CHR 0x27] @ name @ [CHR 0x27] @
     '' in the first line of the file''"

text \<open>
  The log is the list of the messages given to \<^verbatim>\<open>log.Printf\<close>, without the prefix and
  the newline the logger adds. \<^verbatim>\<open>parseHeader\<close> returns what it logged, its two results
  (\<open>-1\<close> with every error) and the reader as it leaves it (\<open>None\<close> is the nil reader).
\<close>

definition parseHeader ::
  "stdlib \<Rightarrow> customerImporter \<Rightarrow> Reader option \<Rightarrow>
     string list \<times> (int \<times> error option) \<times> Reader option" where
  "parseHeader lib ci reader =
     (case reader of
        None \<Rightarrow> ([], (- 1, Some (ErrorString ''invalid reader'')), None)
      | Some r \<Rightarrow>
          (case Read r of
             ((header, Some err), r') \<Rightarrow> ([], (- 1, Some err), Some r')
           | ((header, None), r') \<Rightarrow>
               (case findColumn header (EmailColumnName ci) 0 of
                  Some emailColIndex \<Rightarrow> ([], (emailColIndex, None), Some r')
                | None \<Rightarrow>
                    (let errorMsg = missingColumnMsg (EmailColumnName ci)
                     in ([Sprintf0 lib errorMsg],
                         (- 1, Some (ErrorString (Sprintf0 lib errorMsg))), Some r')))))"

definition sortResults :: "customerImporter \<Rightarrow> custGrp \<Rightarrow> EmailGroup list" where
  "sortResults ci custGrp =
     map (\<lambda>domain. \<lparr>EmailDomain = domain, Counter = mapGet custGrp domain\<rparr>)
       (sort (map fst custGrp))"

text \<open>
  \<^verbatim>\<open>processLine\<close> returns the map as it leaves it and its error (\<open>None\<close> is nil), or
  panics where \<^verbatim>\<open>line[emailColIndex]\<close> is out of range.
\<close>

definition processLine ::
  "stdlib \<Rightarrow> customerImporter \<Rightarrow> string list \<Rightarrow> int \<Rightarrow> custGrp \<Rightarrow> int \<Rightarrow>
     panic + (custGrp \<times> error option)" where
  "processLine lib ci line emailColIndex custGrp lineNumber =
     (if int (length line) < emailColIndex then
        Inr (custGrp,
          Some (ErrorString (''email field not found at line '' @ itoa lineNumber)))
      else if emailColIndex < 0 \<or> int (length line) \<le> emailColIndex then
        Inl (IndexOutOfRange emailColIndex (length line))
      else
        (let emailField = line ! nat emailColIndex;
             components = Split emailField CHR ''@''
         in if length components = numExpectedEmailComponents then
              (let mailDomain = ToLower lib (components ! emailDomainIndex)
               in Inr (mapIncr custGrp mailDomain, None))
            else Inr (custGrp, Some (ErrorString ''invalid email format''))))"

text \<open>
  The loop of \<^verbatim>\<open>Import\<close>: the log so far is \<open>lg\<close>; the result is the log and either a
  panic or the two results of \<^verbatim>\<open>Import\<close> (the nil slice is \<open>[]\<close>).
\<close>

function importLoop ::
  "stdlib \<Rightarrow> customerImporter \<Rightarrow> Reader \<Rightarrow> int \<Rightarrow> custGrp \<Rightarrow> int \<Rightarrow> string list \<Rightarrow>
     string list \<times> (panic + (EmailGroup list \<times> error option))" where
  "importLoop lib ci reader emailColIndex custGrp lineNumber lg =
     (case Read reader of
        ((line, Some err), reader') \<Rightarrow>
          (if err = EOF then (lg, Inr (sortResults ci custGrp, None))
           else (lg, Inr ([], Some err)))
      | ((line, None), reader') \<Rightarrow>
          (case processLine lib ci line emailColIndex custGrp lineNumber of
             Inl p \<Rightarrow> (lg, Inl p)
           | Inr (custGrp', None) \<Rightarrow>
               importLoop lib ci reader' emailColIndex custGrp' (lineNumber + 1) lg
           | Inr (custGrp', Some err) \<Rightarrow>
               importLoop lib ci reader' emailColIndex custGrp' (lineNumber + 1)
                 (lg @ [''skip line '' @ itoa lineNumber @ '': '' @ Error err])))"
  by pat_completeness auto
termination
  by (relation "measure (\<lambda>(lib, ci, reader, idx, m, n, lg). length (pending reader))")
    (auto simp: Read_def split: list.splits sum.splits if_splits)

declare importLoop.simps [simp del]

definition Import ::
  "stdlib \<Rightarrow> customerImporter \<Rightarrow> Reader option \<Rightarrow>
     string list \<times> (panic + (EmailGroup list \<times> error option))" where
  "Import lib ci reader =
     (case parseHeader lib ci reader of
        (lg, (emailColIndex, Some err), reader') \<Rightarrow> (lg, Inr ([], Some err))
      | (lg, (emailColIndex, None), None) \<Rightarrow> (lg, Inl NilPointerDereference)
      | (lg, (emailColIndex, None), Some reader') \<Rightarrow>
          importLoop lib ci reader' emailColIndex [] 2 lg)"

subsection \<open>Notions the statements use\<close>

text \<open>
  Inputs of ASCII bytes without \<^verbatim>\<open>%\<close> never reach the two parameters of the library;
  the examples run with this instance.
\<close>

definition asciiLib :: stdlib where
  "asciiLib = \<lparr>unicodeLower = id, formatVerbs = id\<rparr>"

text \<open>
  An instance for text beyond ASCII whose other characters have no case, such as the two
  characters of \<open>nihon\<close> (U+65E5 and U+672C in UTF-8): the Unicode mapping lower-cases
  the ASCII letters and keeps every byte from \<open>0x80\<close> on, as Go's does on such text.
\<close>

definition byteLib :: stdlib where
  "byteLib = \<lparr>unicodeLower = map lowerByte, formatVerbs = id\<rparr>"

definition nihon :: string where
  "nihon = [CHR 0xE6, CHR 0x97, CHR 0xA5, CHR 0xE6, CHR 0x9C, CHR 0xAC]"

text \<open>
  A well-formed input: the reader holds a header and data rows, no error; the header
  names the email column; every row has as many fields as the header; and the reader
  either does not check the number of fields, or takes it from the header (the default
  of \<^verbatim>\<open>csv.NewReader\<close>), or expects the header's.
\<close>

definition wellFormed ::
  "customerImporter \<Rightarrow> Reader \<Rightarrow> string list \<Rightarrow> string list list \<Rightarrow> bool" where
  "wellFormed ci r header rows =
     (pending r = map Inr (header # rows) \<and>
      (FieldsPerRecord r \<le> 0 \<or> FieldsPerRecord r = int (length header)) \<and>
      EmailColumnName ci \<in> set header \<and>
      list_all (\<lambda>row. length row = length header) rows)"

text \<open>The records after the first one that a reader holds: the data rows.\<close>

definition dataRows :: "Reader option \<Rightarrow> nat" where
  "dataRows reader = (case reader of None \<Rightarrow> 0 | Some r \<Rightarrow> length (pending r) - 1)"

text \<open>
  Two bytes that differ at most in letter case: equal, or one is an upper-case ASCII
  letter and the other the same letter in lower case.
\<close>

definition caseVariant :: "char \<Rightarrow> char \<Rightarrow> bool" where
  "caseVariant c d =
     (c = d \<or>
      (CHR ''A'' \<le> c \<and> c \<le> CHR ''Z'' \<and> (of_char d :: nat) = of_char c + 32) \<or>
      (CHR ''A'' \<le> d \<and> d \<le> CHR ''Z'' \<and> (of_char c :: nat) = of_char d + 32))"

text \<open>
  What the loop of \<^verbatim>\<open>Import\<close> computes on rows that all hold the email column \<open>i\<close>:
  the key a field counts under, the map after the rows, and the lines logged.
\<close>

definition countedDomain :: "stdlib \<Rightarrow> string \<Rightarrow> string option" where
  "countedDomain lib emailField =
     (if length (Split emailField CHR ''@'') = 2
      then Some (ToLower lib (Split emailField CHR ''@'' ! 1)) else None)"

fun aggregate :: "stdlib \<Rightarrow> nat \<Rightarrow> custGrp \<Rightarrow> string list list \<Rightarrow> custGrp" where
  "aggregate lib i m [] = m"
| "aggregate lib i m (row # rows) =
     aggregate lib i
       (case countedDomain lib (row ! i) of None \<Rightarrow> m | Some d \<Rightarrow> mapIncr m d) rows"

definition skipMsg :: "int \<Rightarrow> string" where
  "skipMsg lineNumber = ''skip line '' @ itoa lineNumber @ '': invalid email format''"

fun skipLog :: "nat \<Rightarrow> int \<Rightarrow> string list list \<Rightarrow> string list" where
  "skipLog i n [] = []"
| "skipLog i n (row # rows) =
     (if length (Split (row ! i) CHR ''@'') = 2 then skipLog i (n + 1) rows
      else skipMsg n # skipLog i (n + 1) rows)"

text \<open>
  The content of the positive case of \<^verbatim>\<open>TestImport\<close>, as \<^verbatim>\<open>encoding/csv\<close> splits it
  into records: the data lines of the raw string start with four tabs, which stay in the
  first field.
\<close>

definition tabs :: string where
  "tabs = [CHR 0x09, CHR 0x09, CHR 0x09, CHR 0x09]"

definition testHeader :: "string list" where
  "testHeader = [''first_name'', ''last_name'', ''email'', ''gender'', ''ip_address'']"

definition testRows :: "string list list" where
  "testRows =
     [[tabs @ ''Mildred'', ''Hernandez'', ''mhernandez0@github.io'', ''Female'', ''38.194.51.128''],
      [tabs @ ''Norma'', ''Allen'', ''nallen8@cnet.com'', ''Female'', ''168.67.162.1''],
      [tabs @ ''Anna'', ''Rivera'', ''ariverag@whitehouse.gov'', ''Female'', ''105.158.80.2''],
      [tabs @ ''Lori'', ''Elliott'', ''lelliotth@github.io'', ''Female'', ''160.108.154.74''],
      [tabs @ ''Wanda'', ''Lewis'', ''wlewisk@woothemes.com'', ''Female'', ''25.32.100.250''],
      [tabs @ ''Robert'', ''Hunter'', ''rhunterp@google.fr'', ''Male'', ''130.35.232.64''],
      [tabs @ ''Gregory'', ''Ryan'', ''gryanq@google.fr'', ''Male'', ''188.242.255.152''],
      [tabs @ ''Andrew'', ''Morgan'', ''amorganr@google.fr'', ''Male'', ''3.184.160.117''],
      [tabs @ ''Peter'', ''Day'', ''pdays@woothemes.com'', ''Male'', ''0.24.246.12'']]"

text \<open>
  The content of the case \<^verbatim>\<open>Bad email format\<close> of the same test: its data lines start
  with one tab, and the third has no \<^verbatim>\<open>@\<close> in its email field.
\<close>

definition badFormatRows :: "string list list" where
  "badFormatRows =
     [[CHR 0x09 # ''Mildred'', ''Hernandez'', ''mhernandez0@github.io'', ''Female'', ''38.194.51.128''],
      [CHR 0x09 # ''Bonnie'', ''Ortiz'', ''bortiz1@cyberchimps.com'', ''Female'', ''197.54.209.129''],
      [CHR 0x09 # ''Dennis'', ''Henry'', ''dhenry2'', ''Male'', ''155.75.186.217''],
      [CHR 0x09 # ''Justin'', ''Hansen'', ''jhansen3@360.cn'', ''Male'', ''251.166.224.119'']]"

text \<open>
  The records that \<^verbatim>\<open>encoding/csv\<close> reads from a text without quotes and carriage
  returns, each with the line it stands on: the lines are numbered from 1, an empty line
  is ignored, and every other line is split at the commas.
\<close>

definition csvRecords :: "string \<Rightarrow> (nat \<times> string list) list" where
  "csvRecords input =
     map (\<lambda>(n, l). (n, Split l CHR '',''))
       (filter (\<lambda>(n, l). l \<noteq> []) (enumerate 1 (Split input CHR 0x0A)))"

text \<open>
  A file of four lines, the second one empty:
  \<^verbatim>\<open>email\<close>, an empty line, \<^verbatim>\<open>dhenry2\<close>, \<^verbatim>\<open>foo@example.com\<close>.
\<close>

definition blankLineText :: string where
  "blankLineText =
     ''email'' @ [CHR 0x0A] @ [CHR 0x0A] @ ''dhenry2'' @ [CHR 0x0A] @
     ''foo@example.com'' @ [CHR 0x0A]"

section \<open>Lemmas\<close>

subsection \<open>Formatting and splitting\<close>

lemma Sprintf0_plain: "CHR ''%'' \<notin> set format \<Longrightarrow> Sprintf0 lib format = format"
  by (induction lib format rule: Sprintf0.induct) auto

lemma missingColumnMsg_plain:
  "CHR ''%'' \<notin> set name \<Longrightarrow> Sprintf0 lib (missingColumnMsg name) = missingColumnMsg name"
  by (rule Sprintf0_plain) (simp add: missingColumnMsg_def)

lemma Split_not_Nil: "Split s sep \<noteq> []"
  by (induction s) (auto simp: Let_def)

lemma length_Split: "length (Split s sep) = Suc (count_list s sep)"
proof (induction s)
  case Nil
  then show ?case by simp
next
  case (Cons c cs)
  have "length (tl (Split cs sep)) = count_list cs sep"
    using Cons by simp
  then show ?case using Cons by (simp add: Let_def)
qed

lemma Split_no_sep: "sep \<notin> set s \<Longrightarrow> Split s sep = [s]"
  by (induction s) (auto simp: Let_def)

lemma Split_append_sep:
  "sep \<notin> set u \<Longrightarrow> Split (u @ sep # d) sep = u # Split d sep"
  by (induction u) (auto simp: Let_def)

lemma Split_user_domain:
  "sep \<notin> set u \<Longrightarrow> sep \<notin> set d \<Longrightarrow> Split (u @ sep # d) sep = [u, d]"
  by (simp add: Split_append_sep Split_no_sep)

lemma Split_two_decomp:
  assumes "length (Split s sep) = 2"
  shows "\<exists>u d. s = u @ sep # d \<and> sep \<notin> set u \<and> sep \<notin> set d \<and> Split s sep = [u, d]"
proof -
  have c: "count_list s sep = 1" using assms by (simp add: length_Split)
  then have "sep \<in> set s" using count_list_0_iff [of s sep] by auto
  then obtain u d where s: "s = u @ sep # d" and u: "sep \<notin> set u"
    by (meson split_list_first)
  have "count_list d sep = 0" using c s u by (simp add: count_list_0_iff)
  then have "sep \<notin> set d" by (simp add: count_list_0_iff)
  then show ?thesis using s u Split_user_domain by blast
qed

subsection \<open>The aggregation map\<close>

lemma mapGet_mapIncr_same: "mapGet (mapIncr m k) k = mapGet m k + 1"
  by (simp add: mapGet_def mapIncr_def update_conv')

lemma mapGet_mapIncr_other: "k' \<noteq> k \<Longrightarrow> mapGet (mapIncr m k) k' = mapGet m k'"
  by (simp add: mapGet_def mapIncr_def update_conv')

lemma keys_mapIncr: "set (map fst (mapIncr m k)) = insert k (set (map fst m))"
  by (simp add: mapIncr_def update_conv' dom_map_of_conv_image_fst [symmetric])

lemma distinct_mapIncr: "distinct (map fst m) \<Longrightarrow> distinct (map fst (mapIncr m k))"
  by (simp add: mapIncr_def distinct_update)

lemma sum_update:
  "sum_list (map snd (AList.update k (v::int) m)) =
     sum_list (map snd m) + v - (case map_of m k of None \<Rightarrow> 0 | Some c \<Rightarrow> c)"
  by (induction m) auto

lemma sum_mapIncr: "sum_list (map snd (mapIncr m k)) = sum_list (map snd m) + 1"
  by (simp add: mapIncr_def sum_update mapGet_def)

subsection \<open>One line, the loop and the whole import\<close>

lemma processLine_in_range:
  assumes "0 \<le> idx" "idx < int (length line)"
  shows "processLine lib ci line idx m n =
    (if length (Split (line ! nat idx) CHR ''@'') = 2
     then Inr (mapIncr m (ToLower lib (Split (line ! nat idx) CHR ''@'' ! 1)), None)
     else Inr (m, Some (ErrorString ''invalid email format'')))"
  using assms
  by (simp add: processLine_def numExpectedEmailComponents_def emailDomainIndex_def Let_def)

lemma processLine_short:
  "int (length line) < emailColIndex \<Longrightarrow>
     processLine lib ci line emailColIndex custGrp lineNumber =
       Inr (custGrp, Some (ErrorString (''email field not found at line '' @ itoa lineNumber)))"
  by (simp add: processLine_def)

lemma processLine_off_by_one:
  "emailColIndex = int (length line) \<Longrightarrow>
     processLine lib ci line emailColIndex custGrp lineNumber =
       Inl (IndexOutOfRange emailColIndex (length line))"
  by (simp add: processLine_def)

lemma Read_record:
  assumes "pending r = Inr row # rest" "FieldsPerRecord r \<noteq> 0"
    "0 < FieldsPerRecord r \<Longrightarrow> int (length row) = FieldsPerRecord r"
  shows "Read r = ((row, None), r\<lparr>pending := rest\<rparr>)"
  using assms by (simp add: Read_def)

lemma Read_end: "pending r = [] \<Longrightarrow> Read r = (([], Some EOF), r)"
  by (simp add: Read_def)

lemma Read_pending:
  "Read r = ((line, None), r') \<Longrightarrow> Suc (length (pending r')) = length (pending r)"
  by (auto simp: Read_def split: list.splits sum.splits if_splits)

lemma importLoop_rows:
  assumes "FieldsPerRecord r \<noteq> 0"
    "pending r = map Inr rows"
    "list_all (\<lambda>row. i < length row) rows"
    "0 < FieldsPerRecord r \<Longrightarrow> list_all (\<lambda>row. int (length row) = FieldsPerRecord r) rows"
  shows "importLoop lib ci r (int i) m n lg =
           (lg @ skipLog i n rows, Inr (sortResults ci (aggregate lib i m rows), None))"
  using assms
proof (induction rows arbitrary: r m n lg)
  case Nil
  then show ?case
    by (subst importLoop.simps) (simp add: Read_end)
next
  case (Cons row rows)
  let ?r' = "r\<lparr>pending := map Inr rows\<rparr>"
  have rd: "Read r = ((row, None), ?r')"
    using Cons.prems by (intro Read_record) simp_all
  have rng: "0 \<le> int i" "int i < int (length row)"
    using Cons.prems by simp_all
  have IH: "\<And>m n lg. importLoop lib ci ?r' (int i) m n lg =
      (lg @ skipLog i n rows, Inr (sortResults ci (aggregate lib i m rows), None))"
    using Cons.prems by (intro Cons.IH) simp_all
  show ?case
    by (subst importLoop.simps)
      (simp add: rd processLine_in_range [OF rng] IH countedDomain_def skipMsg_def)
qed

lemma findColumn_found:
  "name \<in> set header \<Longrightarrow>
     findColumn header name k = Some (k + int (length (takeWhile (\<lambda>c. c \<noteq> name) header)))"
  by (induction header arbitrary: k) auto

lemma findColumn_missing: "name \<notin> set header \<Longrightarrow> findColumn header name k = None"
  by (induction header arbitrary: k) auto

lemma findColumn_range:
  "findColumn header name k = Some j \<Longrightarrow>
     k \<le> j \<and> j < k + int (length header) \<and> header ! nat (j - k) = name"
proof (induction header arbitrary: k)
  case Nil
  then show ?case by simp
next
  case (Cons c cs)
  show ?case
  proof (cases "c = name")
    case True
    then show ?thesis using Cons.prems by simp
  next
    case False
    then have f: "findColumn cs name (k + 1) = Some j" using Cons.prems by simp
    from Cons.IH [OF f] have "k + 1 \<le> j" "j < k + 1 + int (length cs)"
      "cs ! nat (j - (k + 1)) = name" by simp_all
    moreover from \<open>k + 1 \<le> j\<close> have "nat (j - k) = Suc (nat (j - (k + 1)))" by simp
    ultimately show ?thesis by simp
  qed
qed

lemma Import_missing_column:
  assumes "Read r = ((header, None), r')" "EmailColumnName ci \<notin> set header"
  shows "Import lib ci (Some r) =
    ([Sprintf0 lib (missingColumnMsg (EmailColumnName ci))],
     Inr ([], Some (ErrorString (Sprintf0 lib (missingColumnMsg (EmailColumnName ci))))))"
  using assms by (simp add: Import_def parseHeader_def findColumn_missing Let_def)

lemma Import_missing_column_plain:
  assumes "Read r = ((header, None), r')" "EmailColumnName ci \<notin> set header"
    "CHR ''%'' \<notin> set (EmailColumnName ci)"
  shows "Import lib ci (Some r) =
    ([missingColumnMsg (EmailColumnName ci)],
     Inr ([], Some (ErrorString (missingColumnMsg (EmailColumnName ci)))))"
  using assms by (simp add: Import_missing_column missingColumnMsg_plain)

lemma wellFormed_column:
  assumes "wellFormed ci r header rows"
  shows "\<exists>i. findColumn header (EmailColumnName ci) 0 = Some (int i) \<and> i < length header"
proof -
  let ?i = "length (takeWhile (\<lambda>c. c \<noteq> EmailColumnName ci) header)"
  have f: "findColumn header (EmailColumnName ci) 0 = Some (int ?i)"
    using assms findColumn_found [of "EmailColumnName ci" header 0]
    by (simp add: wellFormed_def)
  then have "?i < length header" using findColumn_range [OF f] by simp
  then show ?thesis using f by blast
qed

lemma Import_wellFormed:
  assumes wf: "wellFormed ci r header rows"
    and col: "findColumn header (EmailColumnName ci) 0 = Some (int i)"
  shows "Import lib ci (Some r) =
           (skipLog i 2 rows, Inr (sortResults ci (aggregate lib i [] rows), None))"
proof -
  have p: "pending r = Inr header # map Inr rows"
    and f: "FieldsPerRecord r \<le> 0 \<or> FieldsPerRecord r = int (length header)"
    and rows: "list_all (\<lambda>row. length row = length header) rows"
    using wf by (simp_all add: wellFormed_def)
  have i: "i < length header"
    using findColumn_range [OF col] by simp
  define r' where "r' = snd (Read r)"
  have rd: "Read r = ((header, None), r')"
    using p f by (auto simp: r'_def Read_def)
  have r': "pending r' = map Inr rows" "FieldsPerRecord r' \<noteq> 0"
    "0 < FieldsPerRecord r' \<Longrightarrow> FieldsPerRecord r' = int (length header)"
    using p f i by (auto simp: r'_def Read_def split: if_splits)
  have ph: "parseHeader lib ci (Some r) = ([], (int i, None), Some r')"
    using rd col by (simp add: parseHeader_def)
  have "importLoop lib ci r' (int i) [] 2 [] =
      ([] @ skipLog i 2 rows, Inr (sortResults ci (aggregate lib i [] rows), None))"
    using i rows r' by (intro importLoop_rows) (auto simp: list_all_iff)
  then show ?thesis using ph by (simp add: Import_def)
qed

lemma importLoop_invariant:
  assumes res: "importLoop lib ci r idx m n lg = (lg', Inr (results, err))"
    and P: "P j m"
    and step: "\<And>j m line k m' e.
      P j m \<Longrightarrow> processLine lib ci line idx m k = Inr (m', e) \<Longrightarrow> P (Suc j) m'"
  shows "(case err of
           None \<Rightarrow> \<exists>m' j'. j' \<le> j + length (pending r) \<and> P j' m' \<and>
                     results = sortResults ci m'
         | Some e \<Rightarrow> results = [])"
  using res P
proof (induction "length (pending r)" arbitrary: r m n lg j rule: less_induct)
  case less
  obtain line e r' where rd: "Read r = ((line, e), r')"
    by (metis prod.exhaust)
  show ?case
  proof (cases e)
    case (Some rerr)
    have out: "(lg', Inr (results, err)) =
        (if rerr = EOF then (lg, Inr (sortResults ci m, None)) else (lg, Inr ([], Some rerr)))"
      using less.prems(1) rd Some
      by (subst (asm) importLoop.simps) (auto split: if_splits)
    show ?thesis
    proof (cases "rerr = EOF")
      case True
      have "j \<le> j + length (pending r) \<and> P j m \<and> sortResults ci m = sortResults ci m"
        using less.prems(2) by simp
      then have "\<exists>m' j'. j' \<le> j + length (pending r) \<and> P j' m' \<and>
          sortResults ci m = sortResults ci m'"
        by blast
      then show ?thesis using out True by simp
    next
      case False
      then show ?thesis using out by simp
    qed
  next
    case None
    have len: "Suc (length (pending r')) = length (pending r)"
      using rd None by (simp add: Read_pending)
    show ?thesis
    proof (cases "processLine lib ci line idx m n")
      case (Inl p)
      then show ?thesis
        using less.prems(1) rd None by (subst (asm) importLoop.simps) simp
    next
      case (Inr pr)
      obtain m1 e1 where pr: "pr = (m1, e1)" by (cases pr)
      have P1: "P (Suc j) m1"
        using step [OF less.prems(2)] Inr pr by blast
      obtain n1 lg1 where
        rec: "importLoop lib ci r' idx m1 n1 lg1 = (lg', Inr (results, err))"
        using less.prems(1) rd None Inr pr
        by (subst (asm) importLoop.simps) (cases e1; simp)
      have IH: "case err of
           None \<Rightarrow> \<exists>m' j'. j' \<le> Suc j + length (pending r') \<and> P j' m' \<and>
                     results = sortResults ci m'
         | Some e \<Rightarrow> results = []"
        using len by (intro less.hyps [OF _ rec P1]) simp
      show ?thesis
      proof (cases err)
        case None
        then obtain m' j' where "j' \<le> Suc j + length (pending r')" "P j' m'"
          "results = sortResults ci m'"
          using IH by auto
        moreover from this len have "j' \<le> j + length (pending r)" by simp
        ultimately show ?thesis using None by auto
      next
        case (Some e2)
        then show ?thesis using IH by simp
      qed
    qed
  qed
qed

lemma Import_invariant:
  assumes res: "Import lib ci reader = (lg, Inr (results, err))"
    and P: "P 0 []"
    and step: "\<And>j m line idx k m' e.
      P j m \<Longrightarrow> processLine lib ci line idx m k = Inr (m', e) \<Longrightarrow> P (Suc j) m'"
  shows "(case err of
           None \<Rightarrow> \<exists>m' j'. j' \<le> dataRows reader \<and> P j' m' \<and> results = sortResults ci m'
         | Some e \<Rightarrow> results = [])"
proof (cases "parseHeader lib ci reader")
  case (fields lg0 ie reader')
  obtain idx herr where ie: "ie = (idx, herr)" by (cases ie)
  show ?thesis
  proof (cases herr)
    case (Some e)
    then show ?thesis using res fields ie by (auto simp: Import_def)
  next
    case None
    then obtain r r' where reader: "reader = Some r" and reader': "reader' = Some r'"
      and rd: "Read r = ((fst (fst (Read r)), None), r')"
      using fields ie
      by (auto simp: parseHeader_def Let_def split: option.splits prod.splits)
    have len: "Suc (length (pending r')) = length (pending r)"
      using rd by (rule Read_pending)
    have loop: "importLoop lib ci r' idx [] 2 lg0 = (lg, Inr (results, err))"
      using res fields ie None reader' by (simp add: Import_def)
    have "case err of
           None \<Rightarrow> \<exists>m' j'. j' \<le> 0 + length (pending r') \<and> P j' m' \<and>
                     results = sortResults ci m'
         | Some e \<Rightarrow> results = []"
      using loop P step by (rule importLoop_invariant)
    moreover have "dataRows reader = length (pending r')"
      using len reader by (simp add: dataRows_def)
    ultimately show ?thesis by (cases err) simp_all
  qed
qed

subsection \<open>The sorted result\<close>

lemma domains_sortResults: "map EmailDomain (sortResults ci m) = sort (map fst m)"
  by (simp add: sortResults_def comp_def)

lemma counters_sortResults:
  "map Counter (sortResults ci m) = map (mapGet m) (sort (map fst m))"
  by (simp add: sortResults_def comp_def)

lemma sum_list_sort: "sum_list (map f (sort xs)) = sum_list (map (f :: 'a::linorder \<Rightarrow> int) xs)"
  by (metis mset_map mset_sort sum_mset_sum_list)

lemma mapGet_key:
  "distinct (map fst m) \<Longrightarrow> (k, v) \<in> set m \<Longrightarrow> mapGet m k = v"
  by (simp add: mapGet_def)

lemma sum_sortResults:
  assumes "distinct (map fst m)"
  shows "sum_list (map Counter (sortResults ci m)) = sum_list (map snd m)"
proof -
  have pt: "\<And>x. x \<in> set m \<Longrightarrow> mapGet m (fst x) = snd x"
    using mapGet_key [OF assms] by (metis prod.collapse)
  have eq: "map (\<lambda>x. mapGet m (fst x)) m = map snd m"
    by (rule map_cong [OF refl]) (rule pt)
  have "sum_list (map Counter (sortResults ci m)) = sum_list (map (mapGet m) (map fst m))"
    unfolding counters_sortResults by (rule sum_list_sort)
  also have "\<dots> = sum_list (map (\<lambda>x. mapGet m (fst x)) m)"
    by (simp add: comp_def)
  finally show ?thesis by (simp only: eq)
qed

lemma strict_sortResults:
  "distinct (map fst m) \<Longrightarrow> sorted_wrt (<) (map EmailDomain (sortResults ci m))"
  by (simp add: domains_sortResults strict_sorted_iff)

subsection \<open>Lower-casing and letter case\<close>

lemma upper_iff:
  "CHR ''A'' \<le> c \<and> c \<le> CHR ''Z'' \<longleftrightarrow>
     65 \<le> (of_char c :: nat) \<and> (of_char c :: nat) \<le> 90"
  by (simp add: less_eq_char_def)

lemma of_char_lowerByte:
  "(of_char (lowerByte c) :: nat) =
     (if 65 \<le> (of_char c :: nat) \<and> (of_char c :: nat) \<le> 90 then of_char c + 32 else of_char c)"
  by (simp add: lowerByte_def upper_iff)

lemma lowerByte_idem: "lowerByte (lowerByte c) = lowerByte c"
  by (auto simp: lowerByte_def [of "lowerByte c"] upper_iff of_char_lowerByte)

lemma isASCII_map_lowerByte: "isASCII s \<Longrightarrow> isASCII (map lowerByte s)"
  by (auto simp: isASCII_def list_all_iff of_char_lowerByte)

lemma ToLower_idem:
  assumes "\<And>s. \<not> isASCII s \<Longrightarrow> ToLower lib (unicodeLower lib s) = unicodeLower lib s"
  shows "ToLower lib (ToLower lib s) = ToLower lib s"
proof (cases "isASCII s")
  case True
  then show ?thesis
    by (simp add: ToLower_def isASCII_map_lowerByte lowerByte_idem)
next
  case False
  then show ?thesis using assms [OF False] by (simp add: ToLower_def)
qed

lemma caseVariant_lowerByte: "caseVariant c d \<Longrightarrow> lowerByte c = lowerByte d"
proof -
  assume cv: "caseVariant c d"
  have "(of_char (lowerByte c) :: nat) = of_char (lowerByte d)"
    using cv by (auto simp: caseVariant_def less_eq_char_def of_char_lowerByte)
  then show ?thesis by (metis char_of_char)
qed

lemma caseVariant_ascii:
  "caseVariant c d \<Longrightarrow> (of_char c :: nat) < 128 \<Longrightarrow> (of_char d :: nat) < 128"
  by (auto simp: caseVariant_def less_eq_char_def)

lemma caseVariant_at:
  "caseVariant CHR ''@'' d \<Longrightarrow> d = CHR ''@''"
  "caseVariant c CHR ''@'' \<Longrightarrow> c = CHR ''@''"
  by (auto simp: caseVariant_def less_eq_char_def)

lemma caseVariant_strings:
  assumes "list_all2 caseVariant d1 d2"
  shows "map lowerByte d1 = map lowerByte d2"
    and "isASCII d1 \<Longrightarrow> isASCII d2"
    and "(CHR ''@'' \<in> set d1) = (CHR ''@'' \<in> set d2)"
  using assms
  by (induction d1 d2 rule: list_all2_induct)
    (auto simp: isASCII_def caseVariant_lowerByte caseVariant_ascii dest: caseVariant_at)

lemma caseVariant_ToLower:
  assumes "isASCII d1" "list_all2 caseVariant d1 d2"
  shows "ToLower lib d2 = ToLower lib d1"
  using caseVariant_strings [OF assms(2)] assms(1) by (simp add: ToLower_def)

lemma caseVariant_ascii_iff:
  "caseVariant c d \<Longrightarrow> ((of_char c :: nat) < 128) = ((of_char d :: nat) < 128)"
  by (auto simp: caseVariant_def less_eq_char_def)

lemma caseVariant_isASCII:
  "list_all2 caseVariant d1 d2 \<Longrightarrow> isASCII d1 = isASCII d2"
  by (induction d1 d2 rule: list_all2_induct)
    (auto simp: isASCII_def dest: caseVariant_ascii_iff)

lemma caseVariant_ToLower_any:
  assumes lib: "\<And>s t. \<not> isASCII s \<Longrightarrow> list_all2 caseVariant s t \<Longrightarrow>
      unicodeLower lib s = unicodeLower lib t"
    and cv: "list_all2 caseVariant d1 d2"
  shows "ToLower lib d2 = ToLower lib d1"
proof (cases "isASCII d1")
  case True
  then show ?thesis using cv by (rule caseVariant_ToLower)
next
  case False
  then have "\<not> isASCII d2" using caseVariant_isASCII [OF cv] by simp
  then show ?thesis using False lib [OF False cv] by (simp add: ToLower_def)
qed

subsection \<open>What one call of processLine does to the map\<close>

lemma processLine_map:
  assumes "processLine lib ci line idx m n = Inr (m', err)"
  shows "m' = m \<or> (\<exists>d. m' = mapIncr m (ToLower lib d))"
  using assms
  by (auto simp: processLine_def Let_def split: if_splits)

lemma processLine_keys_lower:
  assumes idem: "\<And>s. ToLower lib (ToLower lib s) = ToLower lib s"
    and inv: "list_all (\<lambda>k. ToLower lib k = k) (map fst m)"
    and run: "processLine lib ci line idx m n = Inr (m', err)"
  shows "list_all (\<lambda>k. ToLower lib k = k) (map fst m')"
proof -
  from processLine_map [OF run] consider "m' = m" | d where "m' = mapIncr m (ToLower lib d)"
    by blast
  then show ?thesis
  proof cases
    case 1
    then show ?thesis using inv by simp
  next
    case 2
    have ks: "set (map fst m') = insert (ToLower lib d) (set (map fst m))"
      unfolding 2 by (rule keys_mapIncr)
    show ?thesis
      using inv unfolding list_all_iff ks by (auto simp: idem)
  qed
qed

lemma processLine_distinct:
  assumes "distinct (map fst m)" "processLine lib ci line idx m n = Inr (m', err)"
  shows "distinct (map fst m')"
  using processLine_map [OF assms(2)] assms(1) by (auto simp: distinct_mapIncr)

lemma processLine_sum:
  assumes "processLine lib ci line idx m n = Inr (m', err)"
  shows "sum_list (map snd m') \<le> sum_list (map snd m) + 1"
  using processLine_map [OF assms] by (auto simp: sum_mapIncr)

lemma processLine_user_domain:
  assumes "i < length line" "line ! i = u @ CHR ''@'' # d"
    "CHR ''@'' \<notin> set u" "CHR ''@'' \<notin> set d"
  shows "processLine lib ci line (int i) m n = Inr (mapIncr m (ToLower lib d), None)"
  using assms by (simp add: processLine_in_range Split_user_domain)

subsection \<open>The map after the rows\<close>

lemma sum_aggregate:
  "sum_list (map snd (aggregate lib i m rows)) =
     sum_list (map snd m) +
     int (length (filter (\<lambda>row. length (Split (row ! i) CHR ''@'') = 2) rows))"
  by (induction rows arbitrary: m) (simp_all add: countedDomain_def sum_mapIncr)

lemma distinct_aggregate:
  "distinct (map fst m) \<Longrightarrow> distinct (map fst (aggregate lib i m rows))"
  by (induction rows arbitrary: m) (simp_all add: countedDomain_def distinct_mapIncr)

subsection \<open>Every result of an import\<close>

lemma string_less_bytewise:
  "\<not> s < ([] :: string)" "([] :: string) < d # ds"
  "(c # cs < d # ds) = ((of_char c :: nat) < of_char d \<or> c = d \<and> cs < ds)"
  by (simp_all add: less_char_def)

lemma mapGet_map_of: "map_of m = map_of m' \<Longrightarrow> mapGet m = mapGet m'"
  by (simp add: mapGet_def fun_eq_iff)

lemma sortResults_content:
  assumes d: "distinct (map fst m)" and d': "distinct (map fst m')"
    and eq: "map_of m = map_of m'"
  shows "sortResults ci m = sortResults ci m'"
proof -
  have "set (map fst m) = set (map fst m')"
    using eq by (metis dom_map_of_conv_image_fst set_map)
  then have "sort (map fst m) = sort (map fst m')"
    using d d' by (metis distinct_remdups_id sorted_list_of_set_sort_remdups)
  then show ?thesis
    by (simp add: sortResults_def mapGet_map_of [OF eq])
qed

lemma sortResults_entries:
  assumes "distinct (map fst m)"
  shows "list_all (\<lambda>g. (EmailDomain g, Counter g) \<in> set m) (sortResults ci m)"
proof -
  have "\<And>k. k \<in> set (map fst m) \<Longrightarrow> (k, mapGet m k) \<in> set m"
    using assms mapGet_key by fastforce
  then show ?thesis
    by (simp add: sortResults_def list_all_iff)
qed

lemma Import_sorted:
  assumes run: "Import lib ci reader = (lg, Inr (results, err))"
  shows "sorted_wrt (<) (map EmailDomain results) \<and> distinct (map EmailDomain results)"
proof -
  let ?P = "\<lambda>(j::nat) m. distinct (map fst m)"
  have inv: "case err of
      None \<Rightarrow> \<exists>m' j'. j' \<le> dataRows reader \<and> ?P j' m' \<and> results = sortResults ci m'
    | Some e \<Rightarrow> results = []"
    by (rule Import_invariant [OF run, of ?P]) (simp, rule processLine_distinct)
  show ?thesis
  proof (cases err)
    case None
    then obtain m' where "distinct (map fst m')" "results = sortResults ci m'"
      using inv by auto
    then show ?thesis
      by (simp add: domains_sortResults strict_sorted_iff)
  next
    case (Some e)
    then show ?thesis using inv by simp
  qed
qed

lemma Import_sum_bound:
  assumes run: "Import lib ci reader = (lg, Inr (results, err))"
  shows "sum_list (map Counter results) \<le> int (dataRows reader)"
proof -
  let ?P = "\<lambda>j m. distinct (map fst m) \<and> sum_list (map snd m) \<le> int j"
  have step: "\<And>j m line idx k m' e.
      ?P j m \<Longrightarrow> processLine lib ci line idx m k = Inr (m', e) \<Longrightarrow> ?P (Suc j) m'"
    using processLine_distinct processLine_sum by fastforce
  have inv: "case err of
      None \<Rightarrow> \<exists>m' j'. j' \<le> dataRows reader \<and> ?P j' m' \<and> results = sortResults ci m'
    | Some e \<Rightarrow> results = []"
    by (rule Import_invariant [OF run, of ?P]) (simp, rule step)
  show ?thesis
  proof (cases err)
    case None
    then obtain m' j' where "j' \<le> dataRows reader" "distinct (map fst m')"
      "sum_list (map snd m') \<le> int j'" "results = sortResults ci m'"
      using inv by auto
    then show ?thesis by (simp add: sum_sortResults)
  next
    case (Some e)
    then show ?thesis using inv by simp
  qed
qed

lemma importLoop_ci:
  "importLoop lib ci r idx m n lg = importLoop lib ci' r idx m n lg"
proof (induction "length (pending r)" arbitrary: r m n lg rule: less_induct)
  case less
  have pl: "\<And>line k. processLine lib ci line idx m k = processLine lib ci' line idx m k"
    by (simp add: processLine_def)
  have sr: "sortResults ci m = sortResults ci' m"
    by (simp add: sortResults_def)
  have IH: "\<And>line r' m' n' lg'. Read r = ((line, None), r') \<Longrightarrow>
      importLoop lib ci r' idx m' n' lg' = importLoop lib ci' r' idx m' n' lg'"
    using Read_pending by (intro less.hyps) fastforce
  show ?case
    by (subst importLoop.simps, subst (2) importLoop.simps)
      (auto simp: pl sr IH split: prod.splits option.splits sum.splits)
qed

text \<open>
  Every counter of a result is at least one and at most the number of data rows, so no
  counter of an import of fewer than \<open>2\<^sup>6\<^sup>3\<close> rows leaves the range of Go's \<^verbatim>\<open>int\<close>.
\<close>

lemma mapGet_nonneg: "list_all (\<lambda>p. 1 \<le> snd p) m \<Longrightarrow> 0 \<le> mapGet m k"
proof -
  assume pos: "list_all (\<lambda>p. 1 \<le> snd p) m"
  show ?thesis
  proof (cases "map_of m k")
    case None
    then show ?thesis by (simp add: mapGet_def)
  next
    case (Some v)
    then have "(k, v) \<in> set m" by (rule map_of_SomeD)
    then have "1 \<le> v" using pos by (auto simp: list_all_iff)
    then show ?thesis using Some by (simp add: mapGet_def)
  qed
qed

lemma set_update: "set (AList.update k v m) \<subseteq> insert (k, v) (set m)"
  by (induction m) auto

lemma positive_mapIncr:
  assumes "list_all (\<lambda>p. 1 \<le> snd p) m"
  shows "list_all (\<lambda>p. 1 \<le> snd p) (mapIncr m k)"
proof -
  have "1 \<le> mapGet m k + 1" using mapGet_nonneg [OF assms, of k] by simp
  then show ?thesis
    using assms set_update [of k "mapGet m k + 1" m]
    by (auto simp: list_all_iff mapIncr_def)
qed

lemma processLine_positive:
  assumes "list_all (\<lambda>p. 1 \<le> snd p) m" "processLine lib ci line idx m n = Inr (m', err)"
  shows "list_all (\<lambda>p. 1 \<le> snd p) m'"
  using processLine_map [OF assms(2)] assms(1) by (auto simp: positive_mapIncr)

lemma entry_le_sum:
  assumes "list_all (\<lambda>p. 1 \<le> snd p) m" "(k, v) \<in> set m"
  shows "(v::int) \<le> sum_list (map snd m)"
  using assms
proof (induction m)
  case Nil
  then show ?case by simp
next
  case (Cons p m)
  have "0 \<le> sum_list (map snd m)"
    using Cons.prems(1) by (intro sum_list_nonneg) (auto simp: list_all_iff)
  then show ?case using Cons by auto
qed

lemma Import_counter_bound:
  assumes run: "Import lib ci reader = (lg, Inr (results, err))"
  shows "list_all (\<lambda>g. 1 \<le> Counter g \<and> Counter g \<le> int (dataRows reader)) results"
proof -
  let ?P = "\<lambda>j m. distinct (map fst m) \<and> list_all (\<lambda>p. 1 \<le> snd p) m \<and>
    sum_list (map snd m) \<le> int j"
  have step: "\<And>j m line idx k m' e.
      ?P j m \<Longrightarrow> processLine lib ci line idx m k = Inr (m', e) \<Longrightarrow> ?P (Suc j) m'"
    using processLine_distinct processLine_sum processLine_positive by fastforce
  have inv: "case err of
      None \<Rightarrow> \<exists>m' j'. j' \<le> dataRows reader \<and> ?P j' m' \<and> results = sortResults ci m'
    | Some e \<Rightarrow> results = []"
    by (rule Import_invariant [OF run, of ?P]) (simp, rule step)
  show ?thesis
  proof (cases err)
    case None
    then obtain m' j' where j: "j' \<le> dataRows reader" and d: "distinct (map fst m')"
      and pos: "list_all (\<lambda>p. 1 \<le> snd p) m'" and sum: "sum_list (map snd m') \<le> int j'"
      and r: "results = sortResults ci m'"
      using inv by auto
    have "1 \<le> Counter g \<and> Counter g \<le> int (dataRows reader)" if "g \<in> set results" for g
    proof -
      have "(EmailDomain g, Counter g) \<in> set m'"
        using sortResults_entries [OF d, of ci] that r by (simp add: list_all_iff)
      then show ?thesis
        using pos entry_le_sum [OF pos] sum j by (fastforce simp: list_all_iff)
    qed
    then show ?thesis by (simp add: list_all_iff)
  next
    case (Some e)
    then show ?thesis using inv by simp
  qed
qed

section \<open>The claims\<close>

subsection \<open>C1: the format of the email field\<close>

text \<open>
  C1, as the code has it. For every record that holds the email column
  (\<open>0 \<le> emailColIndex < len(line)\<close>) and every map that \<^verbatim>\<open>make\<close> returned: when the
  email field, split on \<^verbatim>\<open>@\<close>, yields anything other than exactly two components,
  \<^verbatim>\<open>processLine\<close> fails with \<^verbatim>\<open>invalid email format\<close> and leaves the aggregation map
  as it was; when it yields exactly two components, empty or not, and the counter of the
  lower-cased second component is an \<^verbatim>\<open>int\<close> below the largest one, \<^verbatim>\<open>processLine\<close>
  succeeds, that counter grows by one and is an \<^verbatim>\<open>int\<close> still, every other counter
  keeps its value, and the keys of the map are the old ones and that domain. (At the
  largest \<^verbatim>\<open>int\<close> the counter of the code wraps to the smallest one.)
\<close>

theorem processLine_email_format:
  assumes "0 \<le> emailColIndex" "emailColIndex < int (length line)"
  shows "(length (Split (line ! nat emailColIndex) CHR ''@'') \<noteq> 2 \<longrightarrow>
            processLine lib ci line emailColIndex custGrp lineNumber =
              Inr (custGrp, Some (ErrorString ''invalid email format''))) \<and>
         (length (Split (line ! nat emailColIndex) CHR ''@'') = 2 \<and>
          minInt \<le> mapGet custGrp (ToLower lib (Split (line ! nat emailColIndex) CHR ''@'' ! 1)) \<and>
          mapGet custGrp (ToLower lib (Split (line ! nat emailColIndex) CHR ''@'' ! 1)) < maxInt \<longrightarrow>
            (\<exists>custGrp'.
               processLine lib ci line emailColIndex custGrp lineNumber = Inr (custGrp', None) \<and>
               mapGet custGrp' (ToLower lib (Split (line ! nat emailColIndex) CHR ''@'' ! 1)) =
                 mapGet custGrp (ToLower lib (Split (line ! nat emailColIndex) CHR ''@'' ! 1)) + 1 \<and>
               mapGet custGrp' (ToLower lib (Split (line ! nat emailColIndex) CHR ''@'' ! 1)) \<le>
                 maxInt \<and>
               (\<forall>k. k \<noteq> ToLower lib (Split (line ! nat emailColIndex) CHR ''@'' ! 1) \<longrightarrow>
                  mapGet custGrp' k = mapGet custGrp k) \<and>
               set (map fst custGrp') =
                 insert (ToLower lib (Split (line ! nat emailColIndex) CHR ''@'' ! 1))
                   (set (map fst custGrp))))"
  using assms keys_mapIncr [of custGrp]
  by (simp add: processLine_in_range mapGet_mapIncr_same mapGet_mapIncr_other)

text \<open>
  Line 4 of the test's \<^verbatim>\<open>contentBadFormat\<close> (no \<^verbatim>\<open>@\<close>) and a field with two
  \<^verbatim>\<open>@\<close> are refused and leave the map alone; a field with one \<^verbatim>\<open>@\<close> is counted
  under its lower-cased domain, whose counter was 1.
\<close>

theorem processLine_email_format_witness:
  "processLine asciiLib New [''Dennis'', ''Henry'', ''dhenry2''] 2 [(''github.io'', 1)] 4 =
     Inr ([(''github.io'', 1)], Some (ErrorString ''invalid email format'')) \<and>
   processLine asciiLib New [''a@b@c''] 0 [(''github.io'', 1)] 2 =
     Inr ([(''github.io'', 1)], Some (ErrorString ''invalid email format'')) \<and>
   minInt \<le> mapGet [(''github.io'', 1)] ''github.io'' \<and>
   mapGet [(''github.io'', 1)] ''github.io'' < maxInt \<and>
   (\<exists>custGrp'.
      processLine asciiLib New [''Lori'', ''Elliott'', ''lelliotth@GitHub.io''] 2
        [(''github.io'', 1)] 5 = Inr (custGrp', None) \<and>
      mapGet custGrp' ''github.io'' = 2 \<and> set (map fst custGrp') = {''github.io''})"
proof -
  have s1: "Split ''dhenry2'' CHR ''@'' = [''dhenry2'']"
    and s2: "Split ''a@b@c'' CHR ''@'' = [''a'', ''b'', ''c'']"
    and s3: "Split ''lelliotth@GitHub.io'' CHR ''@'' = [''lelliotth'', ''GitHub.io'']"
    and l: "ToLower asciiLib ''GitHub.io'' = ''github.io''"
    by code_simp+
  have g: "mapGet [(''github.io'', 1)] ''github.io'' = 1"
    by (simp add: mapGet_def)
  have r: "minInt \<le> 1" "1 < maxInt"
    by (simp_all add: minInt_def maxInt_def)
  show ?thesis
    using processLine_email_format [of 2 "[''Dennis'', ''Henry'', ''dhenry2'']" asciiLib New
        "[(''github.io'', 1)]" 4]
      processLine_email_format [of 0 "[''a@b@c'']" asciiLib New "[(''github.io'', 1)]" 2]
      processLine_email_format [of 2 "[''Lori'', ''Elliott'', ''lelliotth@GitHub.io'']" asciiLib
        New "[(''github.io'', 1)]" 5]
    by (simp add: s1 s2 s3 l g r) blast
qed

text \<open>
  C1 as stated asks for two non-empty components. The field \<^verbatim>\<open>foo@\<close> splits into
  \<^verbatim>\<open>foo\<close> and the empty string, and \<^verbatim>\<open>processLine\<close> accepts it: it counts the record
  under the empty domain.
\<close>

theorem processLine_accepts_empty_domain:
  "Split ''foo@'' CHR ''@'' = [''foo'', ''''] \<and>
   processLine asciiLib New [''foo@''] 0 [] 2 = Inr ([('''', 1)], None)"
  by (simp add: processLine_def numExpectedEmailComponents_def emailDomainIndex_def
      ToLower_def isASCII_def mapIncr_def mapGet_def Let_def)

subsection \<open>C2: the keys of the aggregation map\<close>

text \<open>
  C2, as the code has it: every key of the aggregation map is equal to its own
  lower-casing. Each call of \<^verbatim>\<open>processLine\<close> that returns keeps this true of the map,
  whatever the record, and it is true of every domain of every result of \<^verbatim>\<open>Import\<close>.
  The keys are outputs of \<^verbatim>\<open>strings.ToLower\<close>, so the statement needs what Go's Unicode
  tables give and the model leaves open: a string lower-cased by
  \<^verbatim>\<open>strings.Map(unicode.ToLower, s)\<close> is not changed by \<^verbatim>\<open>strings.ToLower\<close>. On ASCII
  strings this is proved (\<open>lowerByte_idem\<close>). A key may be empty.
\<close>

theorem keys_lower_cased:
  assumes "\<And>s. \<not> isASCII s \<Longrightarrow> ToLower lib (unicodeLower lib s) = unicodeLower lib s"
  shows "(list_all (\<lambda>k. ToLower lib k = k) (map fst custGrp) \<and>
          processLine lib ci line emailColIndex custGrp lineNumber = Inr (custGrp', err) \<longrightarrow>
            list_all (\<lambda>k. ToLower lib k = k) (map fst custGrp')) \<and>
         (Import lib ci reader = (lg, Inr (results, err')) \<longrightarrow>
            list_all (\<lambda>g. ToLower lib (EmailDomain g) = EmailDomain g) results)"
proof -
  have idem: "\<And>s. ToLower lib (ToLower lib s) = ToLower lib s"
    using assms by (rule ToLower_idem)
  have one: "\<And>m line idx n m' e.
      list_all (\<lambda>k. ToLower lib k = k) (map fst m) \<Longrightarrow>
      processLine lib ci line idx m n = Inr (m', e) \<Longrightarrow>
      list_all (\<lambda>k. ToLower lib k = k) (map fst m')"
    using idem by (rule processLine_keys_lower)
  have all: "list_all (\<lambda>g. ToLower lib (EmailDomain g) = EmailDomain g) results"
    if run: "Import lib ci reader = (lg, Inr (results, err'))"
  proof (cases err')
    case (Some e)
    then show ?thesis
      using Import_invariant [OF run, of "\<lambda>j m. True"] by simp
  next
    case None
    have "case err' of
        None \<Rightarrow> \<exists>m' j'. j' \<le> dataRows reader \<and>
          list_all (\<lambda>k. ToLower lib k = k) (map fst m') \<and> results = sortResults ci m'
      | Some e \<Rightarrow> results = []"
      by (rule Import_invariant [OF run, of "\<lambda>j m. list_all (\<lambda>k. ToLower lib k = k) (map fst m)"])
        (simp_all add: one)
    then obtain m' where m': "list_all (\<lambda>k. ToLower lib k = k) (map fst m')"
      and r: "results = sortResults ci m'"
      using None by auto
    have "list_all (\<lambda>k. ToLower lib k = k) (map EmailDomain results)"
      using m' unfolding r domains_sortResults by (simp add: list_all_iff)
    then show ?thesis by (simp add: list_all_iff)
  qed
  show ?thesis using one all by blast
qed

text \<open>
  A mixed-case domain enters the map, and the result of an import, in lower case.
\<close>

theorem keys_lower_cased_witness:
  "list_all (\<lambda>k. ToLower asciiLib k = k) (map fst [(''github.io'', 1)]) \<and>
   processLine asciiLib New [''Foo@EXAMPLE.com''] 0 [(''github.io'', 1)] 2 =
     Inr ([(''github.io'', 1), (''example.com'', 1)], None) \<and>
   list_all (\<lambda>k. ToLower asciiLib k = k) (map fst [(''github.io'', 1), (''example.com'', 1)]) \<and>
   Import asciiLib New (Some (NewReader [Inr [''email''], Inr [''Foo@EXAMPLE.com'']])) =
     ([], Inr ([\<lparr>EmailDomain = ''example.com'', Counter = 1\<rparr>], None)) \<and>
   list_all (\<lambda>g. ToLower asciiLib (EmailDomain g) = EmailDomain g)
     [\<lparr>EmailDomain = ''example.com'', Counter = 1\<rparr>]"
proof -
  have lib: "\<And>s. \<not> isASCII s \<Longrightarrow>
      ToLower asciiLib (unicodeLower asciiLib s) = unicodeLower asciiLib s"
    by (simp add: asciiLib_def ToLower_def)
  have inv: "list_all (\<lambda>k. ToLower asciiLib k = k) (map fst [(''github.io'', 1)])"
    by (simp add: ToLower_def isASCII_def lowerByte_def)
  have s: "Split ''Foo@EXAMPLE.com'' CHR ''@'' = [''Foo'', ''EXAMPLE.com'']"
    and l: "ToLower asciiLib ''EXAMPLE.com'' = ''example.com''"
    by code_simp+
  have run: "processLine asciiLib New [''Foo@EXAMPLE.com''] 0 [(''github.io'', 1)] 2 =
      Inr ([(''github.io'', 1), (''example.com'', 1)], None)"
    by (simp add: processLine_in_range s l mapIncr_def mapGet_def)
  have wf: "wellFormed New (NewReader [Inr [''email''], Inr [''Foo@EXAMPLE.com'']])
      [''email''] [[''Foo@EXAMPLE.com'']]"
    by (simp add: wellFormed_def NewReader_def New_def defaultEmailColumnName_def)
  have col: "findColumn [''email''] (EmailColumnName New) 0 = Some (int 0)"
    by (simp add: New_def defaultEmailColumnName_def)
  have imp: "Import asciiLib New (Some (NewReader [Inr [''email''], Inr [''Foo@EXAMPLE.com'']])) =
      ([], Inr ([\<lparr>EmailDomain = ''example.com'', Counter = 1\<rparr>], None))"
    unfolding Import_wellFormed [OF wf col]
    by (simp add: countedDomain_def s l mapIncr_def mapGet_def sortResults_def)
  show ?thesis
    using keys_lower_cased [OF lib, of "[(''github.io'', 1)]" New "[''Foo@EXAMPLE.com'']" 0 2
        "[(''github.io'', 1), (''example.com'', 1)]" None
        "Some (NewReader [Inr [''email''], Inr [''Foo@EXAMPLE.com'']])" "[]"
        "[\<lparr>EmailDomain = ''example.com'', Counter = 1\<rparr>]" None]
      inv run imp
    by simp
qed

text \<open>
  C2 as stated also makes every key non-empty. An import of the one data row \<^verbatim>\<open>foo@\<close>
  returns the empty domain with count one.
\<close>

theorem Import_empty_domain_key:
  "Import asciiLib New (Some (NewReader [Inr [''email''], Inr [''foo@'']])) =
     ([], Inr ([\<lparr>EmailDomain = '''', Counter = 1\<rparr>], None))"
proof -
  have wf: "wellFormed New (NewReader [Inr [''email''], Inr [''foo@'']]) [''email''] [[''foo@'']]"
    by (simp add: wellFormed_def NewReader_def New_def defaultEmailColumnName_def)
  have col: "findColumn [''email''] (EmailColumnName New) 0 = Some (int 0)"
    by (simp add: New_def defaultEmailColumnName_def)
  show ?thesis
    unfolding Import_wellFormed [OF wf col]
    by (simp add: countedDomain_def Let_def ToLower_def isASCII_def mapIncr_def mapGet_def
        sortResults_def)
qed

subsection \<open>C3: a record too short for the email column\<close>

text \<open>
  C3 says that a record with too few fields to hold the email column gets the error
  \<^verbatim>\<open>email field not found at line N\<close>, so that \<^verbatim>\<open>line[emailColIndex]\<close> is never
  out of range. The guard of \<^verbatim>\<open>processLine\<close> is \<^verbatim>\<open>len(line) < emailColIndex\<close>: it
  catches a record of two fields for column 3, and lets a record of two fields through
  for column 2, where the indexing panics. \<^verbatim>\<open>Import\<close> reaches that call with a reader
  that does not check the number of fields (\<^verbatim>\<open>FieldsPerRecord\<close> negative): the run
  panics at the short record, after one good row.
\<close>

theorem processLine_index_out_of_range:
  "processLine asciiLib New [''Dennis'', ''Henry''] 3 [] 3 =
     Inr ([], Some (ErrorString ''email field not found at line 3'')) \<and>
   processLine asciiLib New [''Dennis'', ''Henry''] 2 [(''github.io'', 1)] 3 =
     Inl (IndexOutOfRange 2 2) \<and>
   Import asciiLib New
     (Some \<lparr>FieldsPerRecord = - 1,
        pending =
          [Inr testHeader,
           Inr [''Mildred'', ''Hernandez'', ''mhernandez0@github.io'', ''Female'', ''38.194.51.128''],
           Inr [''Dennis'', ''Henry''],
           Inr [''Bonnie'', ''Ortiz'', ''bortiz1@cyberchimps.com'', ''Female'', ''197.54.209.129'']]\<rparr>) =
     ([], Inl (IndexOutOfRange 2 2))"
proof -
  have n: "itoa 3 = ''3''" by code_simp
  have col: "EmailColumnName New = ''email''"
    by (simp add: New_def defaultEmailColumnName_def)
  have a: "processLine asciiLib New [''Dennis'', ''Henry''] 3 [] 3 =
     Inr ([], Some (ErrorString ''email field not found at line 3''))"
    by (simp add: processLine_def n)
  have b: "\<And>m n. processLine asciiLib New [''Dennis'', ''Henry''] 2 m n =
     Inl (IndexOutOfRange 2 2)"
    by (simp add: processLine_def)
  have s: "Split ''mhernandez0@github.io'' CHR ''@'' = [''mhernandez0'', ''github.io'']"
    and l: "ToLower asciiLib ''github.io'' = ''github.io''"
    by code_simp+
  have m: "\<And>n. processLine asciiLib New
      [''Mildred'', ''Hernandez'', ''mhernandez0@github.io'', ''Female'', ''38.194.51.128''] 2 [] n =
      Inr ([(''github.io'', 1)], None)"
    by (simp add: processLine_in_range s l mapIncr_def mapGet_def)
  have c: "Import asciiLib New
     (Some \<lparr>FieldsPerRecord = - 1,
        pending =
          [Inr testHeader,
           Inr [''Mildred'', ''Hernandez'', ''mhernandez0@github.io'', ''Female'', ''38.194.51.128''],
           Inr [''Dennis'', ''Henry''],
           Inr [''Bonnie'', ''Ortiz'', ''bortiz1@cyberchimps.com'', ''Female'', ''197.54.209.129'']]\<rparr>) =
     ([], Inl (IndexOutOfRange 2 2))"
    by (simp add: Import_def parseHeader_def Read_def testHeader_def col
        importLoop.simps m b)
  show ?thesis using a b c by simp
qed

subsection \<open>C4: the counts add up to the valid rows\<close>

text \<open>
  C4. On a well-formed input, \<^verbatim>\<open>Import\<close> succeeds and the counters of its result add up
  to the number of data rows whose email field splits on \<^verbatim>\<open>@\<close> into exactly two
  parts; and whatever the reader is, the counters of a result of \<^verbatim>\<open>Import\<close> add up to
  at most the number of data rows the reader holds (\<^verbatim>\<open>Import\<close> returns the nil slice
  with every error).
\<close>

theorem Import_counts_valid_rows:
  "(wellFormed ci r header rows \<longrightarrow>
      (\<exists>i lg results.
         findColumn header (EmailColumnName ci) 0 = Some (int i) \<and>
         Import lib ci (Some r) = (lg, Inr (results, None)) \<and>
         sum_list (map Counter results) =
           int (length (filter (\<lambda>row. length (Split (row ! i) CHR ''@'') = 2) rows)))) \<and>
   (Import lib ci reader = (lg', Inr (results', err)) \<longrightarrow>
      sum_list (map Counter results') \<le> int (dataRows reader))"
proof (intro conjI impI)
  assume wf: "wellFormed ci r header rows"
  then obtain i where col: "findColumn header (EmailColumnName ci) 0 = Some (int i)"
    using wellFormed_column by blast
  have "sum_list (map Counter (sortResults ci (aggregate lib i [] rows))) =
      int (length (filter (\<lambda>row. length (Split (row ! i) CHR ''@'') = 2) rows))"
    by (simp add: sum_sortResults distinct_aggregate sum_aggregate)
  then show "\<exists>i lg results.
         findColumn header (EmailColumnName ci) 0 = Some (int i) \<and>
         Import lib ci (Some r) = (lg, Inr (results, None)) \<and>
         sum_list (map Counter results) =
           int (length (filter (\<lambda>row. length (Split (row ! i) CHR ''@'') = 2) rows))"
    using col Import_wellFormed [OF wf col] by blast
next
  assume "Import lib ci reader = (lg', Inr (results', err))"
  then show "sum_list (map Counter results') \<le> int (dataRows reader)"
    by (rule Import_sum_bound)
qed

text \<open>
  The four data rows of the bad-format content are well formed, three of them hold a
  valid email, and the counters add up to three.
\<close>

theorem Import_counts_valid_rows_witness:
  "wellFormed New (NewReader (map Inr (testHeader # badFormatRows))) testHeader badFormatRows \<and>
   (\<exists>lg results.
      Import asciiLib New (Some (NewReader (map Inr (testHeader # badFormatRows)))) =
        (lg, Inr (results, None)) \<and>
      sum_list (map Counter results) = 3 \<and>
      sum_list (map Counter results) \<le> int (dataRows (Some (NewReader (map Inr (testHeader # badFormatRows))))))  \<and>
   dataRows (Some (NewReader (map Inr (testHeader # badFormatRows)))) = 4"
proof -
  let ?r = "NewReader (map Inr (testHeader # badFormatRows))"
  have wf: "wellFormed New ?r testHeader badFormatRows"
    by (simp add: wellFormed_def NewReader_def New_def defaultEmailColumnName_def
        testHeader_def badFormatRows_def)
  have col: "findColumn testHeader (EmailColumnName New) 0 = Some 2"
    by (simp add: testHeader_def New_def defaultEmailColumnName_def)
  have n: "length (filter (\<lambda>row. length (Split (row ! 2) CHR ''@'') = 2) badFormatRows) = 3"
    by (simp add: badFormatRows_def Let_def)
  have d: "dataRows (Some ?r) = 4"
    by (simp add: dataRows_def NewReader_def badFormatRows_def)
  obtain i lg results where
    i: "findColumn testHeader (EmailColumnName New) 0 = Some (int i)"
    and run: "Import asciiLib New (Some ?r) = (lg, Inr (results, None))"
    and s: "sum_list (map Counter results) =
      int (length (filter (\<lambda>row. length (Split (row ! i) CHR ''@'') = 2) badFormatRows))"
    using Import_counts_valid_rows [of New ?r testHeader badFormatRows asciiLib] wf by blast
  have "i = 2" using i col by simp
  then have "sum_list (map Counter results) = 3" using s n by simp
  moreover have "sum_list (map Counter results) \<le> int (dataRows (Some ?r))"
    using Import_counts_valid_rows [of New ?r testHeader badFormatRows asciiLib "Some ?r" lg
        results None] run by blast
  ultimately show ?thesis using wf run d by blast
qed

subsection \<open>C5: the result is strictly sorted\<close>

text \<open>
  C5. For every aggregation map (an association list whose keys are distinct), the
  domains of \<^verbatim>\<open>sortResults\<close> are strictly ascending in the byte-wise lexicographic
  order of strings (\<open>string_less_bytewise\<close>), without duplicates, they are the keys of
  the map, and each entry carries the count of its key; two lists with the same content
  give the same result, whatever the order of their entries; and the domains of every
  result of \<^verbatim>\<open>Import\<close> are strictly ascending and without duplicates.
\<close>

theorem sortResults_strictly_sorted:
  "(distinct (map fst custGrp) \<longrightarrow>
      sorted_wrt (<) (map EmailDomain (sortResults ci custGrp)) \<and>
      distinct (map EmailDomain (sortResults ci custGrp)) \<and>
      set (map EmailDomain (sortResults ci custGrp)) = set (map fst custGrp) \<and>
      list_all (\<lambda>g. (EmailDomain g, Counter g) \<in> set custGrp) (sortResults ci custGrp)) \<and>
   (distinct (map fst custGrp) \<and> distinct (map fst custGrp') \<and>
    map_of custGrp = map_of custGrp' \<longrightarrow>
      sortResults ci custGrp = sortResults ci custGrp') \<and>
   (Import lib ci reader = (lg, Inr (results, err)) \<longrightarrow>
      sorted_wrt (<) (map EmailDomain results) \<and> distinct (map EmailDomain results))"
proof (intro conjI impI)
  assume d: "distinct (map fst custGrp)"
  show "sorted_wrt (<) (map EmailDomain (sortResults ci custGrp))"
    using d by (rule strict_sortResults)
  show "distinct (map EmailDomain (sortResults ci custGrp))"
    using d by (simp add: domains_sortResults)
  show "set (map EmailDomain (sortResults ci custGrp)) = set (map fst custGrp)"
    unfolding domains_sortResults by simp
  show "list_all (\<lambda>g. (EmailDomain g, Counter g) \<in> set custGrp) (sortResults ci custGrp)"
    using d by (rule sortResults_entries)
next
  assume "distinct (map fst custGrp) \<and> distinct (map fst custGrp') \<and>
    map_of custGrp = map_of custGrp'"
  then show "sortResults ci custGrp = sortResults ci custGrp'"
    using sortResults_content by blast
next
  assume run: "Import lib ci reader = (lg, Inr (results, err))"
  show "sorted_wrt (<) (map EmailDomain results)"
    using Import_sorted [OF run] by simp
  show "distinct (map EmailDomain results)"
    using Import_sorted [OF run] by simp
qed

text \<open>
  One map in two orders of its entries, and the import of the bad-format content.
\<close>

theorem sortResults_strictly_sorted_witness:
  "distinct (map fst [(''github.io'', 2), (''cnet.com'', 1), (''google.fr'', 3 :: int)]) \<and>
   distinct (map fst [(''google.fr'', 3), (''github.io'', 2), (''cnet.com'', 1 :: int)]) \<and>
   map_of [(''github.io'', 2), (''cnet.com'', 1), (''google.fr'', 3 :: int)] =
     map_of [(''google.fr'', 3), (''github.io'', 2), (''cnet.com'', 1)] \<and>
   sortResults New [(''github.io'', 2), (''cnet.com'', 1), (''google.fr'', 3)] =
     [\<lparr>EmailDomain = ''cnet.com'', Counter = 1\<rparr>, \<lparr>EmailDomain = ''github.io'', Counter = 2\<rparr>,
      \<lparr>EmailDomain = ''google.fr'', Counter = 3\<rparr>] \<and>
   sortResults New [(''google.fr'', 3), (''github.io'', 2), (''cnet.com'', 1)] =
     sortResults New [(''github.io'', 2), (''cnet.com'', 1), (''google.fr'', 3)] \<and>
   sorted_wrt (<) [''cnet.com'', ''github.io'', ''google.fr''] \<and>
   Import asciiLib New (Some (NewReader (map Inr (testHeader # badFormatRows)))) =
     ([''skip line 4: invalid email format''],
      Inr ([\<lparr>EmailDomain = ''360.cn'', Counter = 1\<rparr>,
            \<lparr>EmailDomain = ''cyberchimps.com'', Counter = 1\<rparr>,
            \<lparr>EmailDomain = ''github.io'', Counter = 1\<rparr>], None)) \<and>
   sorted_wrt (<) [''360.cn'', ''cyberchimps.com'', ''github.io'']"
proof -
  let ?m = "[(''github.io'', 2), (''cnet.com'', 1), (''google.fr'', 3 :: int)]"
  let ?m' = "[(''google.fr'', 3), (''github.io'', 2), (''cnet.com'', 1 :: int)]"
  let ?r = "NewReader (map Inr (testHeader # badFormatRows))"
  have d: "distinct (map fst ?m)" and d': "distinct (map fst ?m')"
    by simp_all
  have eq: "map_of ?m = map_of ?m'"
    by (auto simp: fun_eq_iff)
  have sr: "sortResults New ?m =
     [\<lparr>EmailDomain = ''cnet.com'', Counter = 1\<rparr>, \<lparr>EmailDomain = ''github.io'', Counter = 2\<rparr>,
      \<lparr>EmailDomain = ''google.fr'', Counter = 3\<rparr>]"
    by (simp add: sortResults_def mapGet_def)
  have wf: "wellFormed New ?r testHeader badFormatRows"
    by (simp add: wellFormed_def NewReader_def New_def defaultEmailColumnName_def
        testHeader_def badFormatRows_def)
  have col: "findColumn testHeader (EmailColumnName New) 0 = Some (int 2)"
    by (simp add: testHeader_def New_def defaultEmailColumnName_def)
  have agg: "aggregate asciiLib 2 [] badFormatRows =
      [(''github.io'', 1), (''cyberchimps.com'', 1), (''360.cn'', 1)]"
    by (simp add: badFormatRows_def countedDomain_def ToLower_def isASCII_def lowerByte_def
        mapIncr_def mapGet_def Let_def)
  have n: "itoa 4 = ''4''" by code_simp
  have lg: "skipLog 2 2 badFormatRows = [''skip line 4: invalid email format'']"
    by (simp add: badFormatRows_def Let_def skipMsg_def n)
  have run: "Import asciiLib New (Some ?r) =
     ([''skip line 4: invalid email format''],
      Inr ([\<lparr>EmailDomain = ''360.cn'', Counter = 1\<rparr>,
            \<lparr>EmailDomain = ''cyberchimps.com'', Counter = 1\<rparr>,
            \<lparr>EmailDomain = ''github.io'', Counter = 1\<rparr>], None))"
    unfolding Import_wellFormed [OF wf col] agg lg
    by (simp add: sortResults_def mapGet_def)
  show ?thesis
    using sortResults_strictly_sorted [of ?m New ?m' asciiLib "Some ?r"
        "[''skip line 4: invalid email format'']"
        "[\<lparr>EmailDomain = ''360.cn'', Counter = 1\<rparr>,
          \<lparr>EmailDomain = ''cyberchimps.com'', Counter = 1\<rparr>,
          \<lparr>EmailDomain = ''github.io'', Counter = 1\<rparr>]" None]
      d d' eq sr run
    by simp
qed

subsection \<open>C6: domains are counted without regard to letter case\<close>

text \<open>
  C6. Two data rows whose email fields are \<open>u1@d1\<close> and \<open>u2@d2\<close>, with domains of
  any bytes that differ at most in the case of their ASCII letters, under a library
  whose Unicode mapping gives two such strings the same lower-case form
  (\<^verbatim>\<open>strings.ToLower\<close> maps a string character by character, and an ASCII letter is a
  character of its own in UTF-8): the two domains have the same lower-case form, the
  one key \<^verbatim>\<open>ToLower(d1)\<close>; where the counter of that key can grow by two within the
  range of \<^verbatim>\<open>int\<close>, both calls of \<^verbatim>\<open>processLine\<close> succeed and increment that key, whose
  counter grows by two while every other counter keeps its value; and an import of just
  these two rows returns one entry, with count two. (Which characters beyond ASCII are
  letters, and their case, is in Go's Unicode tables.)
\<close>

theorem domains_case_insensitive:
  assumes "\<And>s t. \<not> isASCII s \<Longrightarrow> list_all2 caseVariant s t \<Longrightarrow>
      unicodeLower lib s = unicodeLower lib t"
    and "list_all2 caseVariant d1 d2"
    and "i < length line1" "line1 ! i = u1 @ CHR ''@'' # d1"
    and "i < length line2" "line2 ! i = u2 @ CHR ''@'' # d2"
    and "CHR ''@'' \<notin> set u1" "CHR ''@'' \<notin> set u2" "CHR ''@'' \<notin> set d1"
  shows "ToLower lib d2 = ToLower lib d1 \<and>
    (minInt \<le> mapGet m (ToLower lib d1) \<and> mapGet m (ToLower lib d1) + 1 < maxInt \<longrightarrow>
       (\<exists>m1 m2.
          processLine lib ci line1 (int i) m n1 = Inr (m1, None) \<and>
          processLine lib ci line2 (int i) m1 n2 = Inr (m2, None) \<and>
          mapGet m2 (ToLower lib d1) = mapGet m (ToLower lib d1) + 2 \<and>
          mapGet m2 (ToLower lib d1) \<le> maxInt \<and>
          (\<forall>k. k \<noteq> ToLower lib d1 \<longrightarrow> mapGet m2 k = mapGet m k) \<and>
          set (map fst m2) = insert (ToLower lib d1) (set (map fst m)))) \<and>
    (wellFormed ci r header [line1, line2] \<and>
     findColumn header (EmailColumnName ci) 0 = Some (int i) \<longrightarrow>
       Import lib ci (Some r) =
         ([], Inr ([\<lparr>EmailDomain = ToLower lib d1, Counter = 2\<rparr>], None)))"
proof -
  let ?k = "ToLower lib d1"
  have low: "ToLower lib d2 = ?k"
    using assms(1,2) by (rule caseVariant_ToLower_any)
  have at2: "CHR ''@'' \<notin> set d2"
    using caseVariant_strings(3) [OF assms(2)] assms(9) by simp
  have p1: "\<And>m n. processLine lib ci line1 (int i) m n = Inr (mapIncr m ?k, None)"
    using assms(3,4,7,9) by (intro processLine_user_domain) simp_all
  have p2: "\<And>m n. processLine lib ci line2 (int i) m n = Inr (mapIncr m ?k, None)"
    using assms(5,6,8) at2 low processLine_user_domain [of i line2 u2 d2 lib ci] by simp
  have g: "mapGet (mapIncr (mapIncr m ?k) ?k) ?k = mapGet m ?k + 2"
    by (simp add: mapGet_mapIncr_same)
  have o: "\<forall>k. k \<noteq> ?k \<longrightarrow> mapGet (mapIncr (mapIncr m ?k) ?k) k = mapGet m k"
    by (simp add: mapGet_mapIncr_other)
  have ks: "set (map fst (mapIncr (mapIncr m ?k) ?k)) = insert ?k (set (map fst m))"
    unfolding keys_mapIncr by simp
  have two: "\<exists>m1 m2.
       processLine lib ci line1 (int i) m n1 = Inr (m1, None) \<and>
       processLine lib ci line2 (int i) m1 n2 = Inr (m2, None) \<and>
       mapGet m2 ?k = mapGet m ?k + 2 \<and>
       mapGet m2 ?k \<le> maxInt \<and>
       (\<forall>k. k \<noteq> ?k \<longrightarrow> mapGet m2 k = mapGet m k) \<and>
       set (map fst m2) = insert ?k (set (map fst m))"
    if "mapGet m ?k + 1 < maxInt"
  proof -
    have "mapGet (mapIncr (mapIncr m ?k) ?k) ?k \<le> maxInt"
      using that g by simp
    then show ?thesis using p1 p2 g o ks by blast
  qed
  have s1: "Split (line1 ! i) CHR ''@'' = [u1, d1]"
    and s2: "Split (line2 ! i) CHR ''@'' = [u2, d2]"
    using assms(4,6,7,8,9) at2 by (simp_all add: Split_user_domain)
  have imp: "Import lib ci (Some r) = ([], Inr ([\<lparr>EmailDomain = ?k, Counter = 2\<rparr>], None))"
    if wf: "wellFormed ci r header [line1, line2]"
      and col: "findColumn header (EmailColumnName ci) 0 = Some (int i)"
    unfolding Import_wellFormed [OF wf col]
    by (simp add: countedDomain_def s1 s2 low mapIncr_def mapGet_def sortResults_def)
  show ?thesis using low two imp by blast
qed

text \<open>
  The two addresses of the specification, \<^verbatim>\<open>Foo@EXAMPLE.com\<close> and
  \<^verbatim>\<open>bar@example.COM\<close>; and two addresses whose domains start with the two
  characters of \<open>nihon\<close>, beyond ASCII, and end in \<^verbatim>\<open>.CO.jp\<close> and \<^verbatim>\<open>.co.JP\<close>, imported
  alone and counted into a map that holds their domain five times.
\<close>

theorem domains_case_insensitive_witness:
  "list_all2 caseVariant ''EXAMPLE.com'' ''example.COM'' \<and>
   ToLower byteLib ''example.COM'' = ToLower byteLib ''EXAMPLE.com'' \<and>
   Import byteLib New
     (Some (NewReader [Inr [''email''], Inr [''Foo@EXAMPLE.com''], Inr [''bar@example.COM'']])) =
     ([], Inr ([\<lparr>EmailDomain = ''example.com'', Counter = 2\<rparr>], None)) \<and>
   \<not> isASCII (nihon @ ''.CO.jp'') \<and>
   list_all2 caseVariant (nihon @ ''.CO.jp'') (nihon @ ''.co.JP'') \<and>
   Import byteLib New
     (Some (NewReader [Inr [''email''], Inr [''Foo@'' @ nihon @ ''.CO.jp''],
        Inr [''bar@'' @ nihon @ ''.co.JP'']])) =
     ([], Inr ([\<lparr>EmailDomain = nihon @ ''.co.jp'', Counter = 2\<rparr>], None)) \<and>
   (\<exists>m1 m2.
      processLine byteLib New [''Foo@'' @ nihon @ ''.CO.jp''] 0 [(nihon @ ''.co.jp'', 5)] 2 =
        Inr (m1, None) \<and>
      processLine byteLib New [''bar@'' @ nihon @ ''.co.JP''] 0 m1 3 = Inr (m2, None) \<and>
      mapGet m2 (nihon @ ''.co.jp'') = 7)"
proof -
  let ?r = "NewReader [Inr [''email''], Inr [''Foo@EXAMPLE.com''], Inr [''bar@example.COM'']]"
  let ?q = "NewReader [Inr [''email''], Inr [''Foo@'' @ nihon @ ''.CO.jp''],
        Inr [''bar@'' @ nihon @ ''.co.JP'']]"
  have lib: "\<And>s t. \<not> isASCII s \<Longrightarrow> list_all2 caseVariant s t \<Longrightarrow>
      unicodeLower byteLib s = unicodeLower byteLib t"
    by (simp add: byteLib_def caseVariant_strings(1))
  have cv: "list_all2 caseVariant ''EXAMPLE.com'' ''example.COM''"
    by (simp add: caseVariant_def less_eq_char_def)
  have cv': "list_all2 caseVariant (nihon @ ''.CO.jp'') (nihon @ ''.co.JP'')"
    by (simp add: nihon_def caseVariant_def less_eq_char_def)
  have na: "\<not> isASCII (nihon @ ''.CO.jp'')"
    by (simp add: nihon_def isASCII_def)
  have l: "ToLower byteLib ''EXAMPLE.com'' = ''example.com''"
    by code_simp
  have l': "ToLower byteLib (nihon @ ''.CO.jp'') = nihon @ ''.co.jp''"
    by code_simp
  have g: "mapGet [(nihon @ ''.co.jp'', 5)] (nihon @ ''.co.jp'') = 5"
    by (simp add: mapGet_def)
  have rg: "minInt \<le> 5" "(5::int) + 1 < maxInt"
    by (simp_all add: minInt_def maxInt_def)
  have wf: "wellFormed New ?r [''email''] [[''Foo@EXAMPLE.com''], [''bar@example.COM'']]"
    by (simp add: wellFormed_def NewReader_def New_def defaultEmailColumnName_def)
  have wf': "wellFormed New ?q [''email'']
      [[''Foo@'' @ nihon @ ''.CO.jp''], [''bar@'' @ nihon @ ''.co.JP'']]"
    by (simp add: wellFormed_def NewReader_def New_def defaultEmailColumnName_def)
  have col: "findColumn [''email''] (EmailColumnName New) 0 = Some (int 0)"
    by (simp add: New_def defaultEmailColumnName_def)
  have at: "CHR ''@'' \<notin> set (nihon @ ''.CO.jp'')"
    by (simp add: nihon_def)
  have A: "ToLower byteLib ''example.COM'' = ToLower byteLib ''EXAMPLE.com'' \<and>
     Import byteLib New (Some ?r) =
       ([], Inr ([\<lparr>EmailDomain = ''example.com'', Counter = 2\<rparr>], None))"
    using domains_case_insensitive [of byteLib "''EXAMPLE.com''" "''example.COM''" 0
        "[''Foo@EXAMPLE.com'']" "''Foo''" "[''bar@example.COM'']" "''bar''" "[]" New 2 3
        ?r "[''email'']", OF lib cv] wf col l
    by simp
  have B: "Import byteLib New (Some ?q) =
       ([], Inr ([\<lparr>EmailDomain = nihon @ ''.co.jp'', Counter = 2\<rparr>], None)) \<and>
     (\<exists>m1 m2.
      processLine byteLib New [''Foo@'' @ nihon @ ''.CO.jp''] 0 [(nihon @ ''.co.jp'', 5)] 2 =
        Inr (m1, None) \<and>
      processLine byteLib New [''bar@'' @ nihon @ ''.co.JP''] 0 m1 3 = Inr (m2, None) \<and>
      mapGet m2 (nihon @ ''.co.jp'') = 7)"
    using domains_case_insensitive [of byteLib "nihon @ ''.CO.jp''" "nihon @ ''.co.JP''" 0
        "[''Foo@'' @ nihon @ ''.CO.jp'']" "''Foo''" "[''bar@'' @ nihon @ ''.co.JP'']" "''bar''"
        "[(nihon @ ''.co.jp'', 5)]" New 2 3 ?q "[''email'']", OF lib cv'] wf' col l' at g rg
    by simp blast
  show ?thesis using A B cv cv' na by simp
qed

subsection \<open>C7: the line number of a skipped row\<close>

text \<open>
  C7 says that a data row whose email field does not hold exactly one \<^verbatim>\<open>@\<close> is
  skipped with a logged message that refers to its line number, and that the import goes
  on and succeeds. \<^verbatim>\<open>Import\<close> does skip the row and go on (\<open>Import_wellFormed\<close>), and it
  means to log the line: it keeps a variable \<^verbatim>\<open>lineNumber\<close>, set to 2 \<^verbatim>\<open>because we
  already have processed the first line (header)\<close>, logs \<^verbatim>\<open>skip line %d\<close>, and its test expects
  \<^verbatim>\<open>skip line 4\<close> for the row on line 4. But \<^verbatim>\<open>lineNumber\<close> grows by one with each
  record read, and \<^verbatim>\<open>encoding/csv\<close> ignores empty lines: after an empty line the number
  logged is no longer the line of the row. In the file \<open>blankLineText\<close> the record
  \<^verbatim>\<open>dhenry2\<close> stands on line 3, and the message logged for it is
  \<^verbatim>\<open>skip line 2: invalid email format\<close>.
\<close>

theorem Import_logs_record_number:
  "csvRecords blankLineText =
     [(1, [''email'']), (3, [''dhenry2'']), (4, [''foo@example.com''])] \<and>
   Import asciiLib New (Some (NewReader (map (Inr \<circ> snd) (csvRecords blankLineText)))) =
     ([''skip line 2: invalid email format''],
      Inr ([\<lparr>EmailDomain = ''example.com'', Counter = 1\<rparr>], None))"
proof -
  have recs: "csvRecords blankLineText =
      [(1, [''email'']), (3, [''dhenry2'']), (4, [''foo@example.com''])]"
    by code_simp
  let ?r = "NewReader [Inr [''email''], Inr [''dhenry2''], Inr [''foo@example.com'']]"
  have wf: "wellFormed New ?r [''email''] [[''dhenry2''], [''foo@example.com'']]"
    by (simp add: wellFormed_def NewReader_def New_def defaultEmailColumnName_def)
  have col: "findColumn [''email''] (EmailColumnName New) 0 = Some (int 0)"
    by (simp add: New_def defaultEmailColumnName_def)
  have n: "itoa 2 = ''2''" by code_simp
  have l: "ToLower asciiLib ''example.com'' = ''example.com''" by code_simp
  have run: "Import asciiLib New (Some ?r) =
      ([''skip line 2: invalid email format''],
       Inr ([\<lparr>EmailDomain = ''example.com'', Counter = 1\<rparr>], None))"
    unfolding Import_wellFormed [OF wf col]
    by (simp add: countedDomain_def Let_def skipMsg_def n l mapIncr_def mapGet_def
        sortResults_def)
  show ?thesis unfolding recs using run by simp
qed

subsection \<open>C8: a header without the email column\<close>

text \<open>
  C8 says that the error for a header without the configured column names that column.
  With the default column \<^verbatim>\<open>email\<close> and the header of the test's bad-header content, the
  error and the log line are \<^verbatim>\<open>missing column name 'email' in the first line of the file\<close>
  and there is no result. But \<^verbatim>\<open>parseHeader\<close> passes the finished message to
  \<^verbatim>\<open>fmt.Errorf\<close> as its format: for the column \<^verbatim>\<open>100%d\<close> the \<^verbatim>\<open>%d\<close> of the name is
  read as a verb, and the error is
  \<^verbatim>\<open>missing column name '100%!d(MISSING)' in the first line of the file\<close>.
\<close>

theorem Import_missing_column_message:
  "Import lib New
     (Some (NewReader [Inr [''first_name'', ''last_name'', ''MAIL'', ''gender'', ''ip_address'']])) =
     ([''missing column name '' @ [CHR 0x27] @ ''email'' @ [CHR 0x27] @
         '' in the first line of the file''],
      Inr ([], Some (ErrorString (''missing column name '' @ [CHR 0x27] @ ''email'' @ [CHR 0x27] @
         '' in the first line of the file'')))) \<and>
   Import lib (SetEmailColumnName New ''100%d'') (Some (NewReader [Inr testHeader])) =
     ([''missing column name '' @ [CHR 0x27] @ ''100%!d(MISSING)'' @ [CHR 0x27] @
         '' in the first line of the file''],
      Inr ([], Some (ErrorString (''missing column name '' @ [CHR 0x27] @ ''100%!d(MISSING)'' @
         [CHR 0x27] @ '' in the first line of the file''))))"
proof -
  have plain: "Sprintf0 lib (missingColumnMsg ''email'') = missingColumnMsg ''email''"
    by (rule missingColumnMsg_plain) simp
  have verb: "Sprintf0 lib (missingColumnMsg ''100%d'') =
      ''missing column name '' @ [CHR 0x27] @ ''100%!d(MISSING)'' @ [CHR 0x27] @
      '' in the first line of the file''"
    by (simp add: missingColumnMsg_def isLetter_def)
  show ?thesis
    by (simp add: Import_def parseHeader_def Read_def NewReader_def testHeader_def New_def
        defaultEmailColumnName_def SetEmailColumnName_def Let_def plain verb)
      (simp add: missingColumnMsg_def)
qed

subsection \<open>C9: the positive case of the test\<close>

text \<open>
  C9. For the header and the nine data rows of the positive case of \<^verbatim>\<open>TestImport\<close>,
  \<^verbatim>\<open>Import\<close> logs nothing and returns exactly cnet.com 1, github.io 2, google.fr 3,
  whitehouse.gov 1, woothemes.com 2, in this order.
\<close>

theorem Import_test_content:
  "Import lib New (Some (NewReader (map Inr (testHeader # testRows)))) =
     ([],
      Inr ([\<lparr>EmailDomain = ''cnet.com'', Counter = 1\<rparr>,
            \<lparr>EmailDomain = ''github.io'', Counter = 2\<rparr>,
            \<lparr>EmailDomain = ''google.fr'', Counter = 3\<rparr>,
            \<lparr>EmailDomain = ''whitehouse.gov'', Counter = 1\<rparr>,
            \<lparr>EmailDomain = ''woothemes.com'', Counter = 2\<rparr>], None))"
proof -
  have wf: "wellFormed New (NewReader (map Inr (testHeader # testRows))) testHeader testRows"
    by (simp add: wellFormed_def NewReader_def New_def defaultEmailColumnName_def
        testHeader_def testRows_def)
  have col: "findColumn testHeader (EmailColumnName New) 0 = Some (int 2)"
    by (simp add: testHeader_def New_def defaultEmailColumnName_def)
  have agg: "aggregate lib 2 [] testRows =
      [(''github.io'', 2), (''cnet.com'', 1), (''whitehouse.gov'', 1), (''woothemes.com'', 2),
       (''google.fr'', 3)]"
    by (simp add: testRows_def countedDomain_def ToLower_def isASCII_def lowerByte_def
        mapIncr_def mapGet_def Let_def)
  have lg: "skipLog 2 2 testRows = []"
    by (simp add: testRows_def Let_def)
  show ?thesis
    unfolding Import_wellFormed [OF wf col] agg lg
    by (simp add: sortResults_def mapGet_def)
qed

subsection \<open>C10: the setters\<close>

text \<open>
  C10. \<^verbatim>\<open>SetCsvFileName\<close> sets \<^verbatim>\<open>CsvFileName\<close> and leaves \<^verbatim>\<open>EmailColumnName\<close> as it
  was; \<^verbatim>\<open>SetEmailColumnName\<close> sets \<^verbatim>\<open>EmailColumnName\<close> and leaves \<^verbatim>\<open>CsvFileName\<close> as
  it was; and for any reader, \<^verbatim>\<open>Import\<close> gives the same log and the same result
  whatever the file name.
\<close>

theorem setters_frame:
  "EmailColumnName (SetCsvFileName ci fileName) = EmailColumnName ci \<and>
   CsvFileName (SetCsvFileName ci fileName) = fileName \<and>
   CsvFileName (SetEmailColumnName ci columnName) = CsvFileName ci \<and>
   EmailColumnName (SetEmailColumnName ci columnName) = columnName \<and>
   Import lib (SetCsvFileName ci fileName) reader = Import lib ci reader"
proof -
  have "parseHeader lib (SetCsvFileName ci fileName) reader = parseHeader lib ci reader"
    by (simp add: parseHeader_def SetCsvFileName_def
        cong: option.case_cong prod.case_cong)
  then have "Import lib (SetCsvFileName ci fileName) reader = Import lib ci reader"
    by (simp add: Import_def importLoop_ci [of lib "SetCsvFileName ci fileName" _ _ _ _ _ ci]
        cong: option.case_cong prod.case_cong)
  then show ?thesis
    by (simp add: SetCsvFileName_def SetEmailColumnName_def)
qed

end
